theory Spec2Isabelle
  imports Complex_Main
begin

section \<open>JavaScript numbers\<close>

text \<open>
  A JavaScript number is an IEEE 754 binary64 value. The model takes the finite ones as
  the reals they denote, and gives every arithmetic operation as the exact result
  rounded to the nearest binary64 value, ties to the even significand. \<open>Infinity\<close>,
  \<open>NaN\<close> and the sign of zero are outside the model: no operation below comes near the
  largest finite value, and none tells the two zeros apart.

  \<open>exponent x\<close> is the binary exponent of \<open>x\<close>, held at -1022 where the subnormal numbers
  begin; \<open>quantum x\<close> is the distance between neighbouring binary64 values at \<open>x\<close>
  (53 significant bits); \<open>round_even\<close> rounds to the nearest integer, a tie to the even
  one; \<open>binary64 x\<close> is the binary64 value that \<open>x\<close> rounds to.
\<close>

definition exponent :: "real \<Rightarrow> int" where
  "exponent x = max \<lfloor>log 2 \<bar>x\<bar>\<rfloor> (- 1022)"

definition quantum :: "real \<Rightarrow> real" where
  "quantum x = 2 powr real_of_int (exponent x - 52)"

definition round_even :: "real \<Rightarrow> int" where
  "round_even r =
     (let f = \<lfloor>r\<rfloor>; d = r - of_int f
      in if d < 1/2 then f else if 1/2 < d then f + 1 else if even f then f else f + 1)"

definition binary64 :: "real \<Rightarrow> real" where
  "binary64 x = of_int (round_even (x / quantum x)) * quantum x"

text \<open>\<open>x\<close> is a binary64 value.\<close>

definition is_double :: "real \<Rightarrow> bool" where
  "is_double x = (binary64 x = x)"


section \<open>JavaScript strings\<close>

text \<open>
  A JavaScript string is modelled as a \<open>string\<close> whose characters are the code units
  U+0000 to U+00FF, read through \<open>of_char\<close>. Every string literal of \<open>src/js/app.js\<close>
  lies in that range (the Portuguese accented letters are written \<open>CHR 0xE1\<close> and so
  on); strings with code units above U+00FF are outside the model. A number that only
  counts or indexes is an \<open>int\<close> or a \<open>nat\<close>.
\<close>

subsection \<open>White space, \<open>trim\<close>, \<open>split\<close>\<close>

text \<open>
  The white space and line terminators of ECMAScript that fall below U+0100: TAB, LF, VT,
  FF, CR, SPACE and NO-BREAK SPACE. The class \<open>\s\<close> of a regular expression and
  \<open>String.prototype.trim\<close> use the same set.
\<close>

definition is_space :: "char \<Rightarrow> bool" where
  "is_space c = ((of_char c :: nat) \<in> set [9, 10, 11, 12, 13, 32, 160])"

definition is_digit :: "char \<Rightarrow> bool" where
  "is_digit c = (48 \<le> (of_char c :: nat) \<and> (of_char c :: nat) \<le> 57)"

definition trim :: "string \<Rightarrow> string" where
  "trim s = rev (dropWhile is_space (rev (dropWhile is_space s)))"

text \<open>
  \<open>s.split(sep)\<close> for a separator of one character: the pieces between the separators,
  empty pieces included; the empty string gives one empty piece.
\<close>

fun split_js :: "char \<Rightarrow> string \<Rightarrow> string list" where
  "split_js sep [] = [[]]"
| "split_js sep (c # cs) =
     (if c = sep then [] # split_js sep cs
      else (case split_js sep cs of
              [] \<Rightarrow> [[c]]
            | piece # pieces \<Rightarrow> (c # piece) # pieces))"

text \<open>\<open>array.includes(v)\<close> on an array of strings.\<close>

definition array_includes :: "string list \<Rightarrow> string \<Rightarrow> bool" where
  "array_includes arr v = (v \<in> set arr)"

text \<open>
  \<open>arr.slice(start, end)\<close> for the non-negative integer arguments the code passes:
  the elements at positions \<open>start\<close> up to but not including \<open>end\<close>.
\<close>

definition slice :: "nat \<Rightarrow> nat \<Rightarrow> 'a list \<Rightarrow> 'a list" where
  "slice start stop arr = take (stop - start) (drop start arr)"

subsection \<open>\<open>parseInt\<close>\<close>

text \<open>
  \<open>parseInt(s)\<close> without a radix: leading white space is skipped, a sign is read, a
  prefix \<open>0x\<close> or \<open>0X\<close> selects base 16, and the longest run of digits of the base is
  the value. No digit gives \<open>NaN\<close>, here \<open>None\<close>. An argument that is \<open>undefined\<close> is
  first turned into the string \<open>undefined\<close>.
\<close>

definition digit_value :: "nat \<Rightarrow> char \<Rightarrow> nat option" where
  "digit_value radix c =
     (let n = (of_char c :: nat);
          v = (if 48 \<le> n \<and> n \<le> 57 then Some (n - 48)
               else if 97 \<le> n \<and> n \<le> 122 then Some (n - 87)
               else if 65 \<le> n \<and> n \<le> 90 then Some (n - 55)
               else None)
      in case v of
           None \<Rightarrow> None
         | Some d \<Rightarrow> (if d < radix then Some d else None))"

fun leading_digits :: "nat \<Rightarrow> string \<Rightarrow> nat list" where
  "leading_digits radix [] = []"
| "leading_digits radix (c # cs) =
     (case digit_value radix c of
        None \<Rightarrow> []
      | Some d \<Rightarrow> d # leading_digits radix cs)"

definition digits_number :: "nat \<Rightarrow> nat list \<Rightarrow> nat" where
  "digits_number radix ds = foldl (\<lambda>acc d. acc * radix + d) 0 ds"

definition parseInt_string :: "string \<Rightarrow> int option" where
  "parseInt_string inputString =
     (let s = dropWhile is_space inputString;
          negative = (case s of c # _ \<Rightarrow> c = CHR ''-'' | [] \<Rightarrow> False);
          s1 = (case s of c # cs \<Rightarrow> (if c = CHR ''+'' \<or> c = CHR ''-'' then cs else s) | [] \<Rightarrow> s);
          hex = (take 2 s1 = ''0x'' \<or> take 2 s1 = ''0X'');
          radix = (if hex then 16 else 10);
          s2 = (if hex then drop 2 s1 else s1);
          z = leading_digits radix s2
      in if z = [] then None
         else Some ((if negative then - 1 else 1) * int (digits_number radix z)))"

definition parseInt :: "string option \<Rightarrow> int option" where
  "parseInt arg = parseInt_string (case arg of None \<Rightarrow> ''undefined'' | Some s \<Rightarrow> s)"

subsection \<open>Regular expressions\<close>

text \<open>
  The two regular expressions of \<open>setupValidation\<close> are anchored at both ends and use only
  character classes, concatenation, \<open>+\<close>, \<open>?\<close> and a bounded repetition. They are kept
  as data; \<open>rx_test\<close> decides whether the whole string matches.
\<close>

datatype rx =
    Fail
  | Empty
  | Class "char \<Rightarrow> bool"
  | Or rx rx
  | Then rx rx
  | Many rx

fun nullable :: "rx \<Rightarrow> bool" where
  "nullable Fail = False"
| "nullable Empty = True"
| "nullable (Class p) = False"
| "nullable (Or r s) = (nullable r \<or> nullable s)"
| "nullable (Then r s) = (nullable r \<and> nullable s)"
| "nullable (Many r) = True"

fun after :: "char \<Rightarrow> rx \<Rightarrow> rx" where
  "after c Fail = Fail"
| "after c Empty = Fail"
| "after c (Class p) = (if p c then Empty else Fail)"
| "after c (Or r s) = Or (after c r) (after c s)"
| "after c (Then r s) =
     (if nullable r then Or (Then (after c r) s) (after c s) else Then (after c r) s)"
| "after c (Many r) = Then (after c r) (Many r)"

definition rx_test :: "rx \<Rightarrow> string \<Rightarrow> bool" where
  "rx_test r s = nullable (foldl (\<lambda>q c. after c q) r s)"

definition one_or_more :: "rx \<Rightarrow> rx" where
  "one_or_more r = Then r (Many r)"

definition optional :: "rx \<Rightarrow> rx" where
  "optional r = Or Empty r"

fun at_most :: "nat \<Rightarrow> rx \<Rightarrow> rx" where
  "at_most 0 r = Empty"
| "at_most (Suc n) r = Or Empty (Then r (at_most n r))"

definition lit :: "char \<Rightarrow> rx" where
  "lit c = Class (\<lambda>d. d = c)"

text \<open>\<open>/^[^\s@]+@[^\s@]+\.[^\s@]+$/\<close>\<close>

definition email_rx :: rx where
  "email_rx =
     (let part = one_or_more (Class (\<lambda>c. \<not> is_space c \<and> c \<noteq> CHR ''@''))
      in Then part (Then (lit CHR ''@'') (Then part (Then (lit CHR ''.'') part))))"

text \<open>\<open>/^[\+]?[1-9][\d]{0,15}$/\<close>\<close>

definition phone_rx :: rx where
  "phone_rx =
     Then (optional (lit CHR ''+''))
       (Then (Class (\<lambda>c. 49 \<le> (of_char c :: nat) \<and> (of_char c :: nat) \<le> 57))
          (at_most 15 (Class is_digit)))"


section \<open>Storage\<close>

text \<open>
  \<open>Storage\<close> wraps \<open>localStorage\<close> and \<open>JSON\<close>, both of the browser. Of \<open>localStorage\<close>
  the model keeps the stored items, whether access is refused (every access then throws
  a \<open>SecurityError\<close>), and which writes fit the quota (\<open>setItem\<close> otherwise throws a
  \<open>QuotaExceededError\<close>). \<open>JSON.stringify\<close> and \<open>JSON.parse\<close> are parameters: a value is
  turned into a text, into \<open>undefined\<close> (\<open>None\<close>), or an exception is thrown; a text is
  turned into a value or a \<open>SyntaxError\<close> is thrown.
\<close>

datatype js_error = SecurityError | QuotaExceededError | SyntaxError | TypeError

record local_storage =
  stored :: "string \<rightharpoonup> string"
  refused :: bool
  fits :: "string \<Rightarrow> string \<Rightarrow> bool"

record 'v json =
  stringify :: "'v \<Rightarrow> js_error + string option"
  parse :: "string \<Rightarrow> js_error + 'v"

definition setItem :: "local_storage \<Rightarrow> string \<Rightarrow> string \<Rightarrow> js_error + local_storage" where
  "setItem ls key text =
     (if refused ls then Inl SecurityError
      else if \<not> fits ls key text then Inl QuotaExceededError
      else Inr (ls\<lparr>stored := (stored ls)(key \<mapsto> text)\<rparr>))"

definition getItem :: "local_storage \<Rightarrow> string \<Rightarrow> js_error + string option" where
  "getItem ls key = (if refused ls then Inl SecurityError else Inr (stored ls key))"

definition removeItem :: "local_storage \<Rightarrow> string \<Rightarrow> js_error + local_storage" where
  "removeItem ls key =
     (if refused ls then Inl SecurityError
      else Inr (ls\<lparr>stored := (stored ls)(key := None)\<rparr>))"

text \<open>
  \<open>Storage.set\<close>: the result and the storage afterwards. \<open>setItem\<close> turns its argument
  into a string, so an \<open>undefined\<close> from \<open>JSON.stringify\<close> is stored as the text
  \<open>undefined\<close>. Any exception gives \<open>false\<close>.
\<close>

definition Storage_set ::
  "'v json \<Rightarrow> local_storage \<Rightarrow> string \<Rightarrow> 'v \<Rightarrow> bool \<times> local_storage" where
  "Storage_set js ls key v =
     (case stringify js v of
        Inl e \<Rightarrow> (False, ls)
      | Inr text \<Rightarrow>
          (case setItem ls key (case text of None \<Rightarrow> ''undefined'' | Some s \<Rightarrow> s) of
             Inl e \<Rightarrow> (False, ls)
           | Inr ls' \<Rightarrow> (True, ls')))"

text \<open>
  \<open>Storage.get\<close>: \<open>item ? JSON.parse(item) : defaultValue\<close>, where \<open>item\<close> is \<open>null\<close> for
  a missing key and the empty string counts as false; any exception gives the default.
\<close>

definition Storage_get :: "'v json \<Rightarrow> local_storage \<Rightarrow> string \<Rightarrow> 'v \<Rightarrow> 'v" where
  "Storage_get js ls key defaultValue =
     (case getItem ls key of
        Inl e \<Rightarrow> defaultValue
      | Inr item \<Rightarrow>
          (case item of
             None \<Rightarrow> defaultValue
           | Some s \<Rightarrow>
               if s = '''' then defaultValue
               else (case parse js s of
                       Inl e \<Rightarrow> defaultValue
                     | Inr v \<Rightarrow> v)))"

definition Storage_remove :: "local_storage \<Rightarrow> string \<Rightarrow> bool \<times> local_storage" where
  "Storage_remove ls key =
     (case removeItem ls key of
        Inl e \<Rightarrow> (False, ls)
      | Inr ls' \<Rightarrow> (True, ls'))"

text \<open>\<open>JSON\<close> restricted to the two boolean values, to run the wrapper on.\<close>

definition bool_json :: "bool json" where
  "bool_json =
     \<lparr>stringify = (\<lambda>b. Inr (Some (if b then ''true'' else ''false''))),
      parse = (\<lambda>s. if s = ''true'' then Inr True
                    else if s = ''false'' then Inr False
                    else Inl SyntaxError)\<rparr>"


section \<open>HeroEffects\<close>

subsection \<open>Particles\<close>

text \<open>
  A particle as \<open>createParticles\<close> builds it. The fields \<open>x\<close>, \<open>y\<close> and \<open>size\<close> of the
  source are \<open>pos_x\<close>, \<open>pos_y\<close> and \<open>radius\<close> here. The width and height of a canvas
  element are non-negative integers (the DOM type \<open>unsigned long\<close>, below \<open>2^32\<close>).
\<close>

record particle =
  pos_x :: real
  pos_y :: real
  radius :: real
  speedX :: real
  speedY :: real
  opacity :: real

record canvas =
  width :: nat
  height :: nat

text \<open>
  One object of the loop in \<open>createParticles\<close>, from the six results of \<open>Math.random()\<close>
  in the order the object literal asks for them. Every product, sum and difference is
  rounded; the literal \<open>0.2\<close> is itself the binary64 value nearest to 1/5.
\<close>

definition new_particle ::
  "canvas \<Rightarrow> real \<Rightarrow> real \<Rightarrow> real \<Rightarrow> real \<Rightarrow> real \<Rightarrow> real \<Rightarrow> particle" where
  "new_particle c r1 r2 r3 r4 r5 r6 =
     \<lparr>pos_x = binary64 (r1 * real (width c)),
      pos_y = binary64 (r2 * real (height c)),
      radius = binary64 (binary64 (r3 * 3) + 1),
      speedX = binary64 (binary64 (r4 - 0.5) * 0.5),
      speedY = binary64 (binary64 (r5 - 0.5) * 0.5),
      opacity = binary64 (binary64 (r6 * 0.5) + binary64 0.2)\<rparr>"

text \<open>
  \<open>createParticles\<close>: 30 particles on a mobile viewport, 50 otherwise; \<open>random\<close> gives the
  successive results of \<open>Math.random()\<close>.
\<close>

definition createParticles :: "canvas \<Rightarrow> bool \<Rightarrow> (nat \<Rightarrow> real) \<Rightarrow> particle list" where
  "createParticles c isMobile random =
     (let particleCount = (if isMobile then 30 else 50)
      in map (\<lambda>i. new_particle c (random (6 * i)) (random (6 * i + 1)) (random (6 * i + 2))
                       (random (6 * i + 3)) (random (6 * i + 4)) (random (6 * i + 5)))
           [0..<particleCount])"

text \<open>
  The body of the \<open>forEach\<close> in \<open>updateParticles\<close>: the position moves by the speed, the
  sum rounded, and then a speed is multiplied by -1 when the new coordinate is below 0
  or above the canvas size.
\<close>

definition update_particle :: "canvas \<Rightarrow> particle \<Rightarrow> particle" where
  "update_particle c p =
     (let nx = binary64 (pos_x p + speedX p);
          ny = binary64 (pos_y p + speedY p)
      in p\<lparr>pos_x := nx,
            pos_y := ny,
            speedX := (if nx < 0 \<or> nx > real (width c) then binary64 (speedX p * (- 1))
                       else speedX p),
            speedY := (if ny < 0 \<or> ny > real (height c) then binary64 (speedY p * (- 1))
                       else speedY p)\<rparr>)"

definition updateParticles :: "canvas \<Rightarrow> particle list \<Rightarrow> particle list" where
  "updateParticles c particleArray = map (update_particle c) particleArray"

text \<open>The position lies on the canvas.\<close>

definition in_canvas :: "canvas \<Rightarrow> particle \<Rightarrow> bool" where
  "in_canvas c p =
     (0 \<le> pos_x p \<and> pos_x p \<le> real (width c) \<and> 0 \<le> pos_y p \<and> pos_y p \<le> real (height c))"

text \<open>
  The position lies on the canvas or beyond an edge by no more than one step of the
  speed: below 0 by at most the speed, above the size by at most what the sum of size
  and speed rounds to.
\<close>

definition within_one_step :: "canvas \<Rightarrow> particle \<Rightarrow> bool" where
  "within_one_step c p =
     (- \<bar>speedX p\<bar> \<le> pos_x p \<and> pos_x p \<le> binary64 (real (width c) + \<bar>speedX p\<bar>) \<and>
      - \<bar>speedY p\<bar> \<le> pos_y p \<and> pos_y p \<le> binary64 (real (height c) + \<bar>speedY p\<bar>))"

text \<open>The position lies on the canvas or beyond an edge by no more than 1/4.\<close>

definition within_quarter :: "canvas \<Rightarrow> particle \<Rightarrow> bool" where
  "within_quarter c p =
     (- (1/4) \<le> pos_x p \<and> pos_x p \<le> real (width c) + 1/4 \<and>
      - (1/4) \<le> pos_y p \<and> pos_y p \<le> real (height c) + 1/4)"

text \<open>
  On one axis of extent \<open>w\<close>: the speed is a binary64 value of magnitude at most 1/4, and
  the coordinate is in range, or it is below 0 by at most the speed and the speed points
  up, or it is above the extent by at most one rounded step and the speed points down.
\<close>

definition axis_ok :: "nat \<Rightarrow> real \<Rightarrow> real \<Rightarrow> bool" where
  "axis_ok w coord speed =
     (is_double speed \<and> \<bar>speed\<bar> \<le> 1/4 \<and>
      ((0 \<le> coord \<and> coord \<le> real w) \<or>
       (coord < 0 \<and> - speed \<le> coord \<and> 0 \<le> speed) \<or>
       (real w < coord \<and> coord \<le> binary64 (real w - speed) \<and> speed \<le> 0)))"

definition particle_ok :: "canvas \<Rightarrow> particle \<Rightarrow> bool" where
  "particle_ok c p =
     (axis_ok (width c) (pos_x p) (speedX p) \<and> axis_ok (height c) (pos_y p) (speedY p))"

text \<open>
  A particle close to the right edge of a canvas 128 wide, at binary64 values where the
  sums of \<open>updateParticles\<close> are not exact.
\<close>

definition edge_canvas :: canvas where
  "edge_canvas = \<lparr>width = 128, height = 128\<rparr>"

definition edge_particle :: particle where
  "edge_particle = \<lparr>pos_x = 1023/8 - 1/2^46, pos_y = 64, radius = 1,
     speedX = 1/8 + 3/2^47, speedY = 0, opacity = 1/2\<rparr>"

subsection \<open>Counters\<close>

text \<open>
  \<open>animateCounter\<close>: the callback \<open>animate\<close> runs at each animation frame it asked for,
  with the time stamp of the frame, and asks for another frame while \<open>progress < 1\<close>.
  The model gets the time stamps of the frames that would be delivered and returns the
  numbers written, one for each run of the callback; \<open>None\<close> is \<open>NaN\<close>. The text written
  is the number followed by the suffix.

  ECMAScript leaves the precision of \<open>Math.pow\<close> to the engine, so the function the
  engine computes is a parameter, \<open>pow\<close>. Subtraction, division and multiplication are
  rounded.
\<close>

definition duration :: real where
  "duration = 2000"

definition counter_progress :: "real \<Rightarrow> real" where
  "counter_progress elapsed = min (binary64 (elapsed / duration)) 1"

definition easeOutQuart :: "(real \<Rightarrow> real \<Rightarrow> real) \<Rightarrow> real \<Rightarrow> real" where
  "easeOutQuart pow progress = binary64 (1 - pow (binary64 (1 - progress)) 4)"

definition counter_current :: "(real \<Rightarrow> real \<Rightarrow> real) \<Rightarrow> real option \<Rightarrow> real \<Rightarrow> int option" where
  "counter_current pow target progress =
     map_option (\<lambda>t. \<lfloor>binary64 (easeOutQuart pow progress * t)\<rfloor>) target"

fun animate ::
  "(real \<Rightarrow> real \<Rightarrow> real) \<Rightarrow> real option \<Rightarrow> real \<Rightarrow> real list \<Rightarrow> int option list" where
  "animate pow target startTime [] = []"
| "animate pow target startTime (currentTime # later) =
     (let elapsed = binary64 (currentTime - startTime);
          progress = counter_progress elapsed
      in counter_current pow target progress #
           (if progress < 1 then animate pow target startTime later else []))"

definition animateCounter ::
  "(real \<Rightarrow> real \<Rightarrow> real) \<Rightarrow> string option \<Rightarrow> real \<Rightarrow> real list \<Rightarrow> int option list" where
  "animateCounter pow dataset_target startTime frames =
     animate pow (map_option real_of_int (parseInt dataset_target)) startTime frames"

text \<open>The frames at which the callback runs: up to the first with \<open>progress = 1\<close>.\<close>

fun frames_run :: "real \<Rightarrow> real list \<Rightarrow> real list" where
  "frames_run startTime [] = []"
| "frames_run startTime (currentTime # later) =
     currentTime #
       (if counter_progress (binary64 (currentTime - startTime)) < 1
        then frames_run startTime later else [])"

text \<open>
  The number written at a frame with time stamp \<open>currentTime\<close>, for a numeric target.
\<close>

definition written :: "(real \<Rightarrow> real \<Rightarrow> real) \<Rightarrow> real \<Rightarrow> real \<Rightarrow> real \<Rightarrow> int" where
  "written pow target startTime currentTime =
     \<lfloor>binary64 (easeOutQuart pow (counter_progress (binary64 (currentTime - startTime))) * target)\<rfloor>"

text \<open>An engine whose \<open>Math.pow\<close> returns the exact power, rounded.\<close>

definition pow_rounded :: "real \<Rightarrow> real \<Rightarrow> real" where
  "pow_rounded x y = binary64 (x powr y)"


section \<open>Portfolio\<close>

text \<open>
  Of a \<open>.portfolio-item\<close> the model keeps the attribute \<open>data-category\<close> (\<open>None\<close> when
  absent) and whether it carries the classes \<open>hidden\<close> and \<open>animate-in\<close>. The state of a
  \<open>Portfolio\<close> is the node list \<open>items\<close>, \<open>currentFilter\<close>, \<open>itemsPerPage\<close> (the
  constructor sets 6), \<open>currentPage\<close>, and whether the load-more button is displayed
  (\<open>None\<close> when the page has no such button). An element of the page is named by its
  position in \<open>items\<close>.

  \<open>filterItems\<close> and \<open>loadMore\<close> reveal items from \<open>setTimeout\<close> callbacks, which nothing
  ever cancels. The state therefore also holds the time in milliseconds and the timers
  that have not fired yet, each with the time it is due, in the order they were set.
\<close>

record portfolio_item =
  dataset_category :: "string option"
  hidden :: bool
  animate_in :: bool

text \<open>
  The two callbacks given to \<open>setTimeout\<close>: the outer one of \<open>filterItems\<close>, which holds
  the filtered items it was created with, and the one that reveals a single item.
\<close>

datatype timer_action = ShowFiltered "nat list" | ShowItem nat

record portfolio =
  items :: "portfolio_item list"
  currentFilter :: string
  itemsPerPage :: nat
  currentPage :: nat
  loadMoreBtn :: "bool option"
  clock :: nat
  timers :: "(nat \<times> timer_action) list"

text \<open>\<open>item.dataset.category?.split(',') || []\<close>\<close>

definition categories :: "portfolio_item \<Rightarrow> string list" where
  "categories item =
     (case dataset_category item of None \<Rightarrow> [] | Some c \<Rightarrow> split_js CHR '','' c)"

text \<open>\<open>getFilteredItems\<close>: the positions of the items that pass the current filter, in order.\<close>

definition getFilteredItems :: "portfolio \<Rightarrow> nat list" where
  "getFilteredItems p =
     (if currentFilter p = ''all'' then [0..<length (items p)]
      else filter (\<lambda>i. array_includes (categories (items p ! i)) (currentFilter p))
             [0..<length (items p)])"

text \<open>\<open>setTimeout(callback, delay)\<close>\<close>

definition setTimeout :: "timer_action \<Rightarrow> nat \<Rightarrow> portfolio \<Rightarrow> portfolio" where
  "setTimeout action delay p = p\<lparr>timers := timers p @ [(clock p + delay, action)]\<rparr>"

text \<open>
  \<open>elements.forEach((item, index) => setTimeout(() => { ... }, index * 100))\<close>: one timer
  for each element, the first of them with delay 0.
\<close>

definition stagger :: "nat list \<Rightarrow> portfolio \<Rightarrow> portfolio" where
  "stagger elements p =
     p\<lparr>timers := timers p @
          map (\<lambda>index. (clock p + index * 100, ShowItem (elements ! index))) [0..<length elements]\<rparr>"

text \<open>
  \<open>filterItems\<close>: the filtered items are computed, every item gets \<open>hidden\<close>, and a timer
  of 300 ms is set for the reveal.
\<close>

definition filterItems :: "portfolio \<Rightarrow> portfolio" where
  "filterItems p =
     (let filteredItems = getFilteredItems p
      in setTimeout (ShowFiltered filteredItems) 300
           (p\<lparr>items := map (\<lambda>item. item\<lparr>hidden := True\<rparr>) (items p)\<rparr>))"

text \<open>
  What a callback does when its timer fires. The outer callback of \<open>filterItems\<close> reads
  \<open>itemsPerPage\<close> and \<open>currentPage\<close> at that moment and sets the staggered timers; the
  inner callback removes \<open>hidden\<close> from its item and adds \<open>animate-in\<close>.
\<close>

definition run_action :: "timer_action \<Rightarrow> portfolio \<Rightarrow> portfolio" where
  "run_action action p =
     (case action of
        ShowFiltered filteredItems \<Rightarrow>
          stagger (slice 0 (itemsPerPage p * currentPage p) filteredItems) p
      | ShowItem i \<Rightarrow>
          p\<lparr>items := (items p)[i := (items p ! i)\<lparr>hidden := False, animate_in := True\<rparr>]\<rparr>)"

definition updateLoadMoreButton :: "portfolio \<Rightarrow> portfolio" where
  "updateLoadMoreButton p =
     (case loadMoreBtn p of
        None \<Rightarrow> p
      | Some _ \<Rightarrow>
          (let filteredItems = getFilteredItems p;
               visibleItems = currentPage p * itemsPerPage p
           in if visibleItems \<ge> length filteredItems then p\<lparr>loadMoreBtn := Some False\<rparr>
              else p\<lparr>loadMoreBtn := Some True\<rparr>))"

definition loadMore :: "portfolio \<Rightarrow> portfolio" where
  "loadMore p =
     (let p1 = p\<lparr>currentPage := currentPage p + 1\<rparr>;
          filteredItems = getFilteredItems p1;
          startIndex = (currentPage p1 - 1) * itemsPerPage p1;
          endIndex = currentPage p1 * itemsPerPage p1
      in updateLoadMoreButton (stagger (slice startIndex endIndex filteredItems) p1))"

text \<open>
  \<open>handleFilterClick\<close> for a button whose \<open>data-filter\<close> is \<open>wanted\<close>. Which button
  carries the class \<open>active\<close> is not modelled.
\<close>

definition handleFilterClick :: "string \<Rightarrow> portfolio \<Rightarrow> portfolio" where
  "handleFilterClick wanted p =
     (if wanted = currentFilter p then p
      else updateLoadMoreButton (filterItems (p\<lparr>currentFilter := wanted, currentPage := 1\<rparr>)))"

definition showItems :: "portfolio \<Rightarrow> portfolio" where
  "showItems p = updateLoadMoreButton (filterItems p)"

subsection \<open>Timers firing\<close>

text \<open>The timer that fires next: the one due first, and of those the one set first.\<close>

fun earliest :: "(nat \<times> timer_action) list \<Rightarrow> (nat \<times> timer_action) option" where
  "earliest [] = None"
| "earliest (t # ts) =
     (case earliest ts of
        None \<Rightarrow> Some t
      | Some u \<Rightarrow> (if fst u < fst t then Some u else Some t))"

text \<open>A timer fires: it leaves the list, the time is at least its due time, its callback runs.\<close>

definition fire :: "nat \<times> timer_action \<Rightarrow> portfolio \<Rightarrow> portfolio" where
  "fire t p =
     run_action (snd t) (p\<lparr>timers := remove1 t (timers p), clock := max (clock p) (fst t)\<rparr>)"

text \<open>
  The cost of the timers still to fire, which goes down with every timer fired: an outer
  callback sets at most as many timers as it holds items.
\<close>

fun action_cost :: "timer_action \<Rightarrow> nat" where
  "action_cost (ShowFiltered filteredItems) = length filteredItems + 2"
| "action_cost (ShowItem i) = 1"

definition timers_cost :: "portfolio \<Rightarrow> nat" where
  "timers_cost p = sum_list (map (\<lambda>t. action_cost (snd t)) (timers p))"

text \<open>
  Timers fire in turn, each followed by whatever it has set, up to a deadline (\<open>None\<close>:
  until none is left).
\<close>

function run_timers :: "nat option \<Rightarrow> portfolio \<Rightarrow> portfolio" where
  "run_timers deadline p =
     (case earliest (timers p) of
        None \<Rightarrow> p
      | Some t \<Rightarrow>
          (if (case deadline of None \<Rightarrow> True | Some d \<Rightarrow> fst t \<le> d)
           then run_timers deadline (fire t p)
           else p))"
  by pat_completeness auto
termination
proof (relation "measure (\<lambda>(deadline, p). timers_cost p)")
  show "wf (measure (\<lambda>(deadline, p). timers_cost p))" by simp
next
  fix deadline :: "nat option" and p :: portfolio and t :: "nat \<times> timer_action"
  assume e: "earliest (timers p) = Some t"
  have mem: "earliest ts = Some u \<Longrightarrow> u \<in> set ts" for ts u
    by (induction ts arbitrary: u) (auto split: option.splits if_splits)
  from mem [OF e] have
    split: "timers_cost p = action_cost (snd t) +
      sum_list (map (\<lambda>t. action_cost (snd t)) (remove1 t (timers p)))"
    unfolding timers_cost_def by (rule sum_list_map_remove1)
  have "timers_cost (fire t p) < timers_cost p"
  proof (cases "snd t")
    case (ShowFiltered filteredItems)
    then show ?thesis
      unfolding split
      by (simp add: fire_def run_action_def stagger_def timers_cost_def slice_def comp_def
          sum_list_triv)
  next
    case (ShowItem i)
    then show ?thesis
      unfolding split by (simp add: fire_def run_action_def timers_cost_def)
  qed
  then show "((deadline, fire t p), (deadline, p)) \<in> measure (\<lambda>(deadline, p). timers_cost p)"
    by simp
qed

text \<open>All pending timers fire, and those they set.\<close>

definition settle :: "portfolio \<Rightarrow> portfolio" where
  "settle p = run_timers None p"

text \<open>\<open>d\<close> milliseconds pass: the timers due by then fire.\<close>

definition elapse :: "nat \<Rightarrow> portfolio \<Rightarrow> portfolio" where
  "elapse d p = (run_timers (Some (clock p + d)) p)\<lparr>clock := clock p + d\<rparr>"

text \<open>What can happen to the portfolio: a click on a filter button, a click on the load-more
  button, and time passing.\<close>

datatype portfolio_event = FilterClick string | LoadMoreClick | Elapse nat

definition portfolio_step :: "portfolio \<Rightarrow> portfolio_event \<Rightarrow> portfolio" where
  "portfolio_step p ev =
     (case ev of
        FilterClick wanted \<Rightarrow> handleFilterClick wanted p
      | LoadMoreClick \<Rightarrow> loadMore p
      | Elapse d \<Rightarrow> elapse d p)"

definition portfolio_run :: "portfolio \<Rightarrow> portfolio_event list \<Rightarrow> portfolio" where
  "portfolio_run p evs = foldl portfolio_step p evs"

fun is_filter_click :: "portfolio_event \<Rightarrow> bool" where
  "is_filter_click (FilterClick wanted) = True"
| "is_filter_click LoadMoreClick = False"
| "is_filter_click (Elapse d) = False"

fun is_load_more :: "portfolio_event \<Rightarrow> bool" where
  "is_load_more LoadMoreClick = True"
| "is_load_more (FilterClick wanted) = False"
| "is_load_more (Elapse d) = False"

text \<open>The items that do not carry \<open>hidden\<close>.\<close>

definition visible :: "portfolio \<Rightarrow> portfolio_item list" where
  "visible p = filter (\<lambda>item. \<not> hidden item) (items p)"

text \<open>An item carries a category when the category is one of the pieces of its \<open>data-category\<close>.\<close>

definition carries :: "string \<Rightarrow> portfolio_item \<Rightarrow> bool" where
  "carries category item = array_includes (categories item) category"

text \<open>
  A pending timer belongs to the reveal of the filtered items \<open>F\<close> up to the first \<open>m\<close>:
  it is the outer callback for \<open>F\<close>, or it reveals one of the first \<open>m\<close> items of \<open>F\<close>.
\<close>

definition pending_ok :: "nat list \<Rightarrow> nat \<Rightarrow> nat \<times> timer_action \<Rightarrow> bool" where
  "pending_ok F m t =
     (case snd t of
        ShowFiltered filteredItems \<Rightarrow> filteredItems = F
      | ShowItem i \<Rightarrow> i \<in> set (take m F))"

text \<open>
  The reveal of the current filter is under way and nothing else is: the pending timers
  belong to it, only items among the first \<open>itemsPerPage * currentPage\<close> filtered ones
  are visible, and each of those is visible or still has a timer that will reveal it.
\<close>

definition revealing :: "portfolio \<Rightarrow> bool" where
  "revealing q =
     (let F = getFilteredItems q; m = itemsPerPage q * currentPage q
      in list_all (pending_ok F m) (timers q) \<and>
         list_all (\<lambda>i. hidden (items q ! i) \<or> i \<in> set (take m F)) [0..<length (items q)] \<and>
         list_all (\<lambda>i. \<not> hidden (items q ! i) \<or>
                        list_ex (\<lambda>t. snd t = ShowItem i \<or> snd t = ShowFiltered F) (timers q))
           (take m F))"

text \<open>
  A portfolio of four items, two of category \<open>web\<close> and two of category \<open>design\<close>, as it
  stands once the page has loaded: filter \<open>all\<close>, every item visible, no timer pending.
\<close>

definition gallery :: portfolio where
  "gallery =
     \<lparr>items = [\<lparr>dataset_category = Some ''web'', hidden = False, animate_in = True\<rparr>,
               \<lparr>dataset_category = Some ''design'', hidden = False, animate_in = True\<rparr>,
               \<lparr>dataset_category = Some ''web'', hidden = False, animate_in = True\<rparr>,
               \<lparr>dataset_category = Some ''design'', hidden = False, animate_in = True\<rparr>],
      currentFilter = ''all'', itemsPerPage = 6, currentPage = 1,
      loadMoreBtn = Some False, clock = 0, timers = []\<rparr>"


section \<open>Testimonials: the carousel index\<close>

text \<open>
  The class \<open>Testimonials\<close> of \<open>src/js/app.js\<close> keeps \<open>currentIndex\<close>, the node list
  \<open>cards\<close> and the node list \<open>indicators\<close>. Of each card and each indicator the model
  keeps the one thing the carousel changes: whether it carries the class \<open>active\<close>.
  The index is a JavaScript number that only ever holds integers, hence an \<open>int\<close>.
\<close>

record testimonials =
  cards :: "bool list"
  indicators :: "bool list"
  currentIndex :: int

text \<open>
  \<open>updateCarousel\<close>: every card and every indicator gets \<open>active\<close> when its position is
  \<open>currentIndex\<close> (compared with \<open>===\<close>) and loses it otherwise.
\<close>

definition updateCarousel :: "testimonials \<Rightarrow> testimonials" where
  "updateCarousel t =
     t\<lparr>cards := map (\<lambda>i. int i = currentIndex t) [0..<length (cards t)],
       indicators := map (\<lambda>i. int i = currentIndex t) [0..<length (indicators t)]\<rparr>"

text \<open>\<open>prev()\<close>: from 0 to \<open>cards.length - 1\<close>, otherwise one down.\<close>

definition prev :: "testimonials \<Rightarrow> testimonials" where
  "prev t =
     updateCarousel
       (t\<lparr>currentIndex :=
            (if currentIndex t = 0 then int (length (cards t)) - 1
             else currentIndex t - 1)\<rparr>)"

text \<open>\<open>next()\<close>: from \<open>cards.length - 1\<close> to 0, otherwise one up.\<close>

definition next_card :: "testimonials \<Rightarrow> testimonials" where
  "next_card t =
     updateCarousel
       (t\<lparr>currentIndex :=
            (if currentIndex t = int (length (cards t)) - 1 then 0
             else currentIndex t + 1)\<rparr>)"

text \<open>\<open>goTo(index)\<close> stores its argument as it is.\<close>

definition goTo :: "int \<Rightarrow> testimonials \<Rightarrow> testimonials" where
  "goTo index t = updateCarousel (t\<lparr>currentIndex := index\<rparr>)"

text \<open>
  \<open>bindEvents\<close> gives the indicator at position \<open>k\<close> a click listener that calls
  \<open>goTo(k)\<close>; there is no listener for a position that has no indicator.
\<close>

definition indicator_click :: "nat \<Rightarrow> testimonials \<Rightarrow> testimonials" where
  "indicator_click k t = (if k < length (indicators t) then goTo (int k) t else t)"

definition index_in_range :: "testimonials \<Rightarrow> bool" where
  "index_in_range t = (0 \<le> currentIndex t \<and> currentIndex t < int (length (cards t)))"


section \<open>ContactForm\<close>

subsection \<open>Fields and validators\<close>

text \<open>
  Of an input element the model keeps its \<open>value\<close>, the value \<open>form.reset()\<close> restores,
  the attribute \<open>data-validate\<close> (\<open>None\<close> when absent), whether it carries the classes
  \<open>valid\<close> and \<open>invalid\<close>, and the text of the \<open>.form-error\<close> element found through its
  parent (\<open>None\<close> when there is no such element).
\<close>

record field =
  field_value :: string
  default_value :: string
  dataset_validate :: "string option"
  class_valid :: bool
  class_invalid :: bool
  form_error :: "string option"

text \<open>The four validators of \<open>setupValidation\<close>.\<close>

definition validators_required :: "string \<Rightarrow> bool" where
  "validators_required v = (trim v \<noteq> '''')"

definition validators_email :: "string \<Rightarrow> bool" where
  "validators_email v = rx_test email_rx v"

definition validators_phone :: "string \<Rightarrow> bool" where
  "validators_phone v = rx_test phone_rx (filter (\<lambda>c. \<not> is_space c) v)"

text \<open>\<open>value.length >= min\<close>; a comparison with \<open>NaN\<close> is false.\<close>

definition validators_minLength :: "string \<Rightarrow> int option \<Rightarrow> bool" where
  "validators_minLength v m =
     (case m of None \<Rightarrow> False | Some n \<Rightarrow> n \<le> int (length v))"

text \<open>
  \<open>const [validator, param] = rule.split(':')\<close>: the first two pieces, \<open>undefined\<close>
  (\<open>None\<close>) where a piece is missing.
\<close>

definition destructure2 :: "string list \<Rightarrow> string option \<times> string option" where
  "destructure2 parts =
     (case parts of
        [] \<Rightarrow> (None, None)
      | [a] \<Rightarrow> (Some a, None)
      | a # b # _ \<Rightarrow> (Some a, Some b))"

definition msg_required :: string where
  "msg_required = ''Este campo '' @ [CHR 0xE9] @ '' obrigat'' @ [CHR 0xF3] @ ''rio''"

definition msg_email :: string where
  "msg_email = ''Digite um email v'' @ [CHR 0xE1] @ ''lido''"

definition msg_phone :: string where
  "msg_phone = ''Digite um telefone v'' @ [CHR 0xE1] @ ''lido''"

definition msg_minLength :: "string option \<Rightarrow> string" where
  "msg_minLength param =
     ''M'' @ [CHR 0xED] @ ''nimo de '' @ (case param of None \<Rightarrow> ''undefined'' | Some p \<Rightarrow> p)
       @ '' caracteres''"

text \<open>
  The \<open>for (const rule of rules)\<close> loop of \<open>validateField\<close>: the pair
  \<open>(isValid, errorMessage)\<close> it leaves. A \<open>break\<close> is a return without a recursive
  call. The value is a string, so \<open>value &&\<close> asks whether it is non-empty.
\<close>

fun validate_rules :: "string \<Rightarrow> string list \<Rightarrow> bool \<times> string" where
  "validate_rules v [] = (True, '''')"
| "validate_rules v (rule # rules) =
     (case destructure2 (split_js CHR '':'' rule) of (validator, param) \<Rightarrow>
        if validator = Some ''required'' \<and> \<not> validators_required v
          then (False, msg_required)
        else if validator = Some ''email'' \<and> v \<noteq> '''' \<and> \<not> validators_email v
          then (False, msg_email)
        else if validator = Some ''phone'' \<and> v \<noteq> '''' \<and> \<not> validators_phone v
          then (False, msg_phone)
        else if validator = Some ''minLength'' \<and> v \<noteq> '''' \<and>
                \<not> validators_minLength v (parseInt param)
          then (False, msg_minLength param)
        else validate_rules v rules)"

text \<open>\<open>field.dataset.validate?.split('|') || []\<close>\<close>

definition field_rules :: "field \<Rightarrow> string list" where
  "field_rules f =
     (case dataset_validate f of None \<Rightarrow> [] | Some d \<Rightarrow> split_js CHR ''|'' d)"

text \<open>\<open>validateField\<close> returns \<open>isValid\<close>; the field comes back with its classes and error text set.\<close>

definition validateField :: "field \<Rightarrow> bool \<times> field" where
  "validateField f =
     (case validate_rules (field_value f) (field_rules f) of (isValid, errorMessage) \<Rightarrow>
        if isValid
          then (isValid, f\<lparr>class_invalid := False, class_valid := True,
                           form_error := map_option (\<lambda>_. '''') (form_error f)\<rparr>)
          else (isValid, f\<lparr>class_valid := False, class_invalid := True,
                           form_error := map_option (\<lambda>_. errorMessage) (form_error f)\<rparr>))"

text \<open>\<open>clearFieldError\<close>\<close>

definition clearFieldError :: "field \<Rightarrow> field" where
  "clearFieldError f =
     f\<lparr>class_invalid := False, form_error := map_option (\<lambda>_. '''') (form_error f)\<rparr>"

text \<open>
  \<open>validateForm\<close>: every input is validated, also after one has failed, and the result
  is false when any of them is invalid.
\<close>

fun validateForm :: "field list \<Rightarrow> bool \<times> field list" where
  "validateForm [] = (True, [])"
| "validateForm (input # inputs) =
     (case validateField input of (ok, input') \<Rightarrow>
        case validateForm inputs of (isValid, inputs') \<Rightarrow>
          (ok \<and> isValid, input' # inputs'))"

text \<open>
  What the words of the specification say about one rule, for comparison with the loop:
  when a rule fails on a value, and the message it then sets.
\<close>

definition validator_of :: "string \<Rightarrow> string option" where
  "validator_of rule = fst (destructure2 (split_js CHR '':'' rule))"

definition param_of :: "string \<Rightarrow> string option" where
  "param_of rule = snd (destructure2 (split_js CHR '':'' rule))"

definition rule_fails :: "string \<Rightarrow> string \<Rightarrow> bool" where
  "rule_fails v rule =
     (if validator_of rule = Some ''required'' then \<not> validators_required v
      else if validator_of rule = Some ''email'' then v \<noteq> '''' \<and> \<not> validators_email v
      else if validator_of rule = Some ''phone'' then v \<noteq> '''' \<and> \<not> validators_phone v
      else if validator_of rule = Some ''minLength''
        then v \<noteq> '''' \<and> \<not> validators_minLength v (parseInt (param_of rule))
      else False)"

definition rule_message :: "string \<Rightarrow> string" where
  "rule_message rule =
     (if validator_of rule = Some ''required'' then msg_required
      else if validator_of rule = Some ''email'' then msg_email
      else if validator_of rule = Some ''phone'' then msg_phone
      else msg_minLength (param_of rule))"

subsection \<open>Submission\<close>

text \<open>
  The state of a \<open>ContactForm\<close>: its inputs, the flag \<open>isSubmitting\<close>, the submit button
  (\<open>None\<close> when \<open>.form-submit\<close> is not in the page), and the \<open>.form-message\<close> element.
  Each message element gets a number when \<open>showMessage\<close> creates it, so that the timer
  \<open>showMessage\<close> starts can name the element it will remove; \<open>hide_timers\<close> are the
  timers not yet fired, oldest first. \<open>in_flight\<close> counts the calls of \<open>handleSubmit\<close>
  that wait at \<open>await this.submitToAPI(data)\<close>; the code has no such counter, it is
  there to state how many submissions are under way.
\<close>

record submit_button =
  disabled :: bool
  loading :: bool

record contact_form =
  inputs :: "field list"
  isSubmitting :: bool
  submitBtn :: "submit_button option"
  form_message :: "(nat \<times> string \<times> string) option"
  next_element :: nat
  hide_timers :: "nat list"
  in_flight :: nat

definition msg_fix_errors :: string where
  "msg_fix_errors = ''Por favor, corrija os erros no formul'' @ [CHR 0xE1] @ ''rio.''"

definition msg_success :: string where
  "msg_success = ''Mensagem enviada com sucesso! Entraremos em contato em breve.''"

definition msg_failure :: string where
  "msg_failure = ''Erro ao enviar mensagem. Tente novamente.''"

text \<open>
  \<open>showMessage(message, type)\<close>: the message element is looked up, created when there is
  none, given the type and the text, and a timer is started that removes this element.
\<close>

definition showMessage :: "string \<Rightarrow> string \<Rightarrow> contact_form \<Rightarrow> contact_form" where
  "showMessage message type cf =
     (case form_message cf of
        None \<Rightarrow>
          cf\<lparr>form_message := Some (next_element cf, message, type),
              next_element := next_element cf + 1,
              hide_timers := hide_timers cf @ [next_element cf]\<rparr>
      | Some (el, _, _) \<Rightarrow>
          cf\<lparr>form_message := Some (el, message, type),
              hide_timers := hide_timers cf @ [el]\<rparr>)"

text \<open>The timer of \<open>showMessage\<close> fires: its element is removed if it is still in the page.\<close>

definition message_timeout :: "contact_form \<Rightarrow> contact_form" where
  "message_timeout cf =
     (case hide_timers cf of
        [] \<Rightarrow> cf
      | el # later \<Rightarrow>
          (case form_message cf of
             None \<Rightarrow> cf\<lparr>hide_timers := later\<rparr>
           | Some (shown, _, _) \<Rightarrow>
               if shown = el then cf\<lparr>hide_timers := later, form_message := None\<rparr>
               else cf\<lparr>hide_timers := later\<rparr>))"

text \<open>\<open>updateSubmitButton(isLoading)\<close> on a button that exists.\<close>

definition updateSubmitButton :: "bool \<Rightarrow> submit_button \<Rightarrow> submit_button" where
  "updateSubmitButton isLoading b = b\<lparr>disabled := isLoading, loading := isLoading\<rparr>"

text \<open>
  \<open>handleSubmit\<close> up to its \<open>await\<close>. While \<open>isSubmitting\<close> it returns at once. With an
  invalid form it shows the error message and returns. Otherwise it sets \<open>isSubmitting\<close>
  and the button and starts \<open>submitToAPI\<close>. Without a submit button
  \<open>updateSubmitButton\<close> throws outside the \<open>try\<close>: the call ends there, with
  \<open>isSubmitting\<close> set and nothing sent.
\<close>

definition handleSubmit :: "contact_form \<Rightarrow> contact_form" where
  "handleSubmit cf =
     (if isSubmitting cf then cf
      else case validateForm (inputs cf) of (isValid, inputs') \<Rightarrow>
        if \<not> isValid then showMessage msg_fix_errors ''error'' (cf\<lparr>inputs := inputs'\<rparr>)
        else (case submitBtn cf of
                None \<Rightarrow> cf\<lparr>inputs := inputs', isSubmitting := True\<rparr>
              | Some b \<Rightarrow>
                  cf\<lparr>inputs := inputs', isSubmitting := True,
                      submitBtn := Some (updateSubmitButton True b),
                      in_flight := in_flight cf + 1\<rparr>))"

text \<open>\<open>form.reset()\<close> followed by the removal of the classes \<open>valid\<close> and \<open>invalid\<close>.\<close>

definition reset_input :: "field \<Rightarrow> field" where
  "reset_input f = f\<lparr>field_value := default_value f, class_valid := False, class_invalid := False\<rparr>"

text \<open>
  \<open>handleSubmit\<close> after its \<open>await\<close>, when the promise of \<open>submitToAPI\<close> has settled:
  the \<open>try\<close> branch when it was fulfilled, the \<open>catch\<close> branch when it was rejected, and
  the \<open>finally\<close> block in both.
\<close>

definition handleSubmit_resume :: "bool \<Rightarrow> contact_form \<Rightarrow> contact_form" where
  "handleSubmit_resume fulfilled cf =
     (let cf1 = (if fulfilled
                 then (showMessage msg_success ''success'' cf)
                        \<lparr>inputs := map reset_input (inputs cf)\<rparr>
                 else showMessage msg_failure ''error'' cf)
      in cf1\<lparr>isSubmitting := False,
             submitBtn := map_option (updateSubmitButton False) (submitBtn cf1),
             in_flight := in_flight cf1 - 1\<rparr>)"

text \<open>
  What can happen to the form: a \<open>submit\<close> event, the promise of a waiting submission
  settling, \<open>blur\<close> and \<open>input\<close> on the input at a position, and a message timer firing.
\<close>

datatype form_event =
    Submit
  | ApiSettled bool
  | Blur nat
  | Input nat string
  | MessageTimeout

definition form_step :: "contact_form \<Rightarrow> form_event \<Rightarrow> contact_form" where
  "form_step cf ev =
     (case ev of
        Submit \<Rightarrow> handleSubmit cf
      | ApiSettled fulfilled \<Rightarrow>
          (if in_flight cf = 0 then cf else handleSubmit_resume fulfilled cf)
      | Blur i \<Rightarrow>
          (if i < length (inputs cf)
           then cf\<lparr>inputs := (inputs cf)[i := snd (validateField (inputs cf ! i))]\<rparr>
           else cf)
      | Input i v \<Rightarrow>
          (if i < length (inputs cf)
           then cf\<lparr>inputs := (inputs cf)[i := clearFieldError ((inputs cf ! i)\<lparr>field_value := v\<rparr>)]\<rparr>
           else cf)
      | MessageTimeout \<Rightarrow> message_timeout cf)"

definition form_run :: "contact_form \<Rightarrow> form_event list \<Rightarrow> contact_form" where
  "form_run cf evs = foldl form_step cf evs"

text \<open>At most as many submissions wait as the flag allows: none without it, one with it.\<close>

definition in_flight_ok :: "contact_form \<Rightarrow> bool" where
  "in_flight_ok cf = (in_flight cf \<le> (if isSubmitting cf then 1 else 0))"


section \<open>WhatsAppForm\<close>

text \<open>
  \<open>handleSubmit(form)\<close> reads the form into \<open>data\<close> and walks \<open>Object.entries(data)\<close>.
  The model starts from those entries: the names and values of the form fields, in
  order, each name once, each value a string.
\<close>

definition phoneNumber :: string where
  "phoneNumber = ''5511914823015''"

definition labels :: "(string \<times> string) list" where
  "labels =
     [(''name'', ''Nome''),
      (''email'', ''Email''),
      (''phone'', ''Telefone''),
      (''company'', ''Empresa''),
      (''service'', ''Servi'' @ [CHR 0xE7] @ ''o''),
      (''budget'', ''Or'' @ [CHR 0xE7] @ ''amento''),
      (''message'', ''Mensagem''),
      (''project'', ''Projeto'')]"

text \<open>
  \<open>labels\<close> is an object literal, so \<open>labels[fieldName]\<close> also finds what every object
  inherits from \<open>Object.prototype\<close>: for these names the result is a function, or
  \<open>Object.prototype\<close> itself for \<open>__proto__\<close>.
\<close>

definition object_prototype_names :: "string list" where
  "object_prototype_names =
     [''constructor'', ''__defineGetter__'', ''__defineSetter__'', ''hasOwnProperty'',
      ''__lookupGetter__'', ''__lookupSetter__'', ''isPrototypeOf'', ''propertyIsEnumerable'',
      ''toString'', ''valueOf'', ''__proto__'', ''toLocaleString'']"

text \<open>
  \<open>labels[fieldName] || fieldName\<close>, as the text it becomes in the template of the
  message. An inherited value is an object, which counts as true; the text of a built-in
  function is left to the engine, so \<open>inherited_text\<close> gives the text for each inherited
  name.
\<close>

definition getFieldLabel :: "(string \<Rightarrow> string) \<Rightarrow> string \<Rightarrow> string" where
  "getFieldLabel inherited_text fieldName =
     (case map_of labels fieldName of
        Some label \<Rightarrow> (if label = '''' then fieldName else label)
      | None \<Rightarrow>
          (if fieldName \<in> set object_prototype_names then inherited_text fieldName
           else fieldName))"

definition newline :: string where
  "newline = [CHR 0x0A]"

definition message_header :: string where
  "message_header =
     ''Ol'' @ [CHR 0xE1] @ ''! Gostaria de solicitar um or'' @ [CHR 0xE7] @ ''amento:''
       @ newline @ newline"

definition message_footer :: string where
  "message_footer = newline @ ''Aguardo retorno. Obrigado!''"

text \<open>The template \<open>*${label}:* ${value}\n\<close>.\<close>

definition message_line :: "(string \<Rightarrow> string) \<Rightarrow> string \<Rightarrow> string \<Rightarrow> string" where
  "message_line inherited_text key v =
     ''*'' @ getFieldLabel inherited_text key @ '':* '' @ v @ newline"

text \<open>
  The message \<open>handleSubmit\<close> builds: the greeting, then the \<open>forEach\<close> over the entries,
  which appends a line for each value that is non-empty after \<open>trim()\<close>, then the closing.
\<close>

definition build_message :: "(string \<Rightarrow> string) \<Rightarrow> (string \<times> string) list \<Rightarrow> string" where
  "build_message inherited_text entries =
     foldl (\<lambda>message (key, v).
              if trim v \<noteq> '''' then message @ message_line inherited_text key v else message)
       message_header entries
     @ message_footer"

text \<open>
  \<open>encodeURIComponent\<close> on code units below U+0100: letters, digits and
  \<open>- _ . ! ~ * ' ( )\<close> stay; any other code unit becomes \<open>%XX\<close> for each byte of its
  UTF-8 form, one byte below U+0080 and two bytes from there on.
\<close>

definition unreserved :: "char \<Rightarrow> bool" where
  "unreserved c =
     (let n = (of_char c :: nat)
      in (48 \<le> n \<and> n \<le> 57) \<or> (65 \<le> n \<and> n \<le> 90) \<or> (97 \<le> n \<and> n \<le> 122) \<or>
         c \<in> set (''-_.!~*()'' @ [CHR 0x27]))"

definition hex_digit :: "nat \<Rightarrow> char" where
  "hex_digit n = ''0123456789ABCDEF'' ! (n mod 16)"

definition percent :: "nat \<Rightarrow> string" where
  "percent byte = [CHR ''%'', hex_digit (byte div 16), hex_digit byte]"

definition encode_unit :: "char \<Rightarrow> string" where
  "encode_unit c =
     (let n = (of_char c :: nat)
      in if unreserved c then [c]
         else if n < 128 then percent n
         else percent (192 + n div 64) @ percent (128 + n mod 64))"

definition encodeURIComponent :: "string \<Rightarrow> string" where
  "encodeURIComponent s = concat (map encode_unit s)"

text \<open>\<open>openWhatsApp\<close>: the URL given to \<open>window.open\<close>.\<close>

definition openWhatsApp :: "string \<Rightarrow> string" where
  "openWhatsApp message =
     ''https://wa.me/'' @ phoneNumber @ ''?text='' @ encodeURIComponent message"

text \<open>\<open>WhatsAppForm.handleSubmit\<close>, from the entries of the form to the URL opened.\<close>

definition whatsapp_handleSubmit :: "(string \<Rightarrow> string) \<Rightarrow> (string \<times> string) list \<Rightarrow> string" where
  "whatsapp_handleSubmit inherited_text entries =
     openWhatsApp (build_message inherited_text entries)"

text \<open>The lines of a text.\<close>

definition lines_of :: "string \<Rightarrow> string list" where
  "lines_of s = split_js (CHR 0x0A) s"

text \<open>The characters that \<open>encodeURIComponent\<close> can produce.\<close>

definition url_safe :: "char \<Rightarrow> bool" where
  "url_safe c = (unreserved c \<or> c = CHR ''%'')"


section \<open>Facts about binary64 rounding\<close>

lemma round_even_of_int [simp]: "round_even (of_int m) = m"
  by (simp add: round_even_def)

lemma round_even_bounds: "\<lfloor>r\<rfloor> \<le> round_even r \<and> round_even r \<le> \<lfloor>r\<rfloor> + 1"
  by (simp add: round_even_def Let_def)

lemma round_even_mono:
  assumes "r \<le> s"
  shows "round_even r \<le> round_even s"
proof (cases "\<lfloor>r\<rfloor> = \<lfloor>s\<rfloor>")
  case True
  with assms show ?thesis
    by (auto simp: round_even_def Let_def)
next
  case False
  with assms have "\<lfloor>r\<rfloor> + 1 \<le> \<lfloor>s\<rfloor>"
    using floor_mono [of r s] by linarith
  with round_even_bounds [of r] round_even_bounds [of s] show ?thesis by linarith
qed

lemma round_even_error: "\<bar>of_int (round_even r) - r\<bar> \<le> 1/2"
proof -
  have "of_int \<lfloor>r\<rfloor> \<le> r" "r < of_int \<lfloor>r\<rfloor> + 1" by linarith+
  then show ?thesis
    by (auto simp: round_even_def Let_def abs_le_iff)
qed

lemma round_even_half_even:
  assumes "even m"
  shows "round_even (of_int m + 1/2) = m"
proof -
  have "\<lfloor>of_int m + (1/2 :: real)\<rfloor> = m" by linarith
  with assms show ?thesis by (simp add: round_even_def Let_def)
qed

lemma round_even_minus: "round_even (- r) = - round_even r"
proof (cases "r = of_int \<lfloor>r\<rfloor>")
  case True
  then obtain m where "r = of_int m" ..
  then show ?thesis by (simp flip: of_int_minus)
next
  case False
  define f where "f = \<lfloor>r\<rfloor>"
  from False have lo: "of_int f < r" and hi: "r < of_int f + 1"
    unfolding f_def by linarith+
  then have g: "\<lfloor>- r\<rfloor> = - f - 1" by linarith
  have ev: "even (- f - 1) \<longleftrightarrow> odd f" by simp
  consider "r - of_int f < 1/2" | "r - of_int f > 1/2" | "r - of_int f = 1/2" by linarith
  then show ?thesis
  proof cases
    case 1
    then have "round_even r = f" by (simp add: round_even_def f_def)
    moreover from 1 have "round_even (- r) = - f"
      unfolding round_even_def Let_def g by simp
    ultimately show ?thesis by simp
  next
    case 2
    then have "round_even r = f + 1" by (simp add: round_even_def f_def)
    moreover from 2 have "round_even (- r) = - f - 1"
      unfolding round_even_def Let_def g by simp
    ultimately show ?thesis by simp
  next
    case 3
    then have a: "round_even r = (if even f then f else f + 1)"
      by (simp add: round_even_def f_def)
    from 3 have "- r - of_int (- f - 1) = 1/2" by simp
    then have b: "round_even (- r) = (if odd f then - f - 1 else - f)"
      unfolding round_even_def Let_def g by (simp only: ev) simp
    from a b show ?thesis by simp
  qed
qed


lemma pw_pos: "0 < 2 powr real_of_int k"
  by simp

lemma pw_add: "2 powr real_of_int (a + b) = 2 powr real_of_int a * 2 powr real_of_int b"
  by (simp add: powr_add)

lemma pw_nat: "0 \<le> k \<Longrightarrow> 2 powr real_of_int k = of_int (2 ^ nat k)"
  using powr_real_of_int [of 2 k] by simp

lemma pw_mono: "a \<le> b \<Longrightarrow> 2 powr real_of_int a \<le> 2 powr real_of_int b"
  by simp

lemma pw_less_cancel: "2 powr real_of_int a < 2 powr real_of_int b \<longleftrightarrow> a < b"
  by simp

lemma floor_log_bounds:
  assumes "x \<noteq> 0"
  shows "2 powr real_of_int \<lfloor>log 2 \<bar>x\<bar>\<rfloor> \<le> \<bar>x\<bar>"
    and "\<bar>x\<bar> < 2 powr real_of_int (\<lfloor>log 2 \<bar>x\<bar>\<rfloor> + 1)"
proof -
  from assms have "0 < \<bar>x\<bar>" by simp
  then have "\<lfloor>log 2 \<bar>x\<bar>\<rfloor> = \<lfloor>log 2 \<bar>x\<bar>\<rfloor> \<longleftrightarrow>
      2 powr real_of_int \<lfloor>log 2 \<bar>x\<bar>\<rfloor> \<le> \<bar>x\<bar> \<and>
      \<bar>x\<bar> < 2 powr real_of_int (\<lfloor>log 2 \<bar>x\<bar>\<rfloor> + 1)"
    by (intro floor_log_eq_powr_iff) simp_all
  then show "2 powr real_of_int \<lfloor>log 2 \<bar>x\<bar>\<rfloor> \<le> \<bar>x\<bar>"
    and "\<bar>x\<bar> < 2 powr real_of_int (\<lfloor>log 2 \<bar>x\<bar>\<rfloor> + 1)"
    by simp_all
qed

lemma floor_log_eqI:
  assumes "2 powr real_of_int k \<le> \<bar>x\<bar>" and "\<bar>x\<bar> < 2 powr real_of_int (k + 1)"
  shows "\<lfloor>log 2 \<bar>x\<bar>\<rfloor> = k"
proof -
  from assms(1) have "0 < \<bar>x\<bar>" using pw_pos [of k] by linarith
  then have "\<lfloor>log 2 \<bar>x\<bar>\<rfloor> = k \<longleftrightarrow>
      2 powr real_of_int k \<le> \<bar>x\<bar> \<and> \<bar>x\<bar> < 2 powr real_of_int (k + 1)"
    by (intro floor_log_eq_powr_iff) simp_all
  with assms show ?thesis by simp
qed

lemma exponent_minus [simp]: "exponent (- x) = exponent x"
  by (simp add: exponent_def)

lemma quantum_minus [simp]: "quantum (- x) = quantum x"
  by (simp add: quantum_def)

lemma quantum_pos: "0 < quantum x"
  by (simp add: quantum_def)

lemma exponent_ge: "- 1022 \<le> exponent x"
  by (simp add: exponent_def)

lemma abs_less_exponent: "\<bar>x\<bar> < 2 powr real_of_int (exponent x + 1)"
proof (cases "x = 0")
  case True
  then show ?thesis by simp
next
  case False
  have "\<lfloor>log 2 \<bar>x\<bar>\<rfloor> + 1 \<le> exponent x + 1" by (simp add: exponent_def)
  then have "2 powr real_of_int (\<lfloor>log 2 \<bar>x\<bar>\<rfloor> + 1) \<le> 2 powr real_of_int (exponent x + 1)"
    by (rule pw_mono)
  with floor_log_bounds(2) [OF False] show ?thesis by linarith
qed

lemma exponent_le_abs:
  assumes "x \<noteq> 0" and "- 1022 < exponent x"
  shows "2 powr real_of_int (exponent x) \<le> \<bar>x\<bar>"
proof -
  from assms(2) have "exponent x = \<lfloor>log 2 \<bar>x\<bar>\<rfloor>"
    by (simp add: exponent_def max_def split: if_splits)
  with floor_log_bounds(1) [OF assms(1)] show ?thesis by simp
qed

lemma exponent_eqI:
  assumes "2 powr real_of_int k \<le> \<bar>x\<bar>" and "\<bar>x\<bar> < 2 powr real_of_int (k + 1)"
    and "- 1022 \<le> k"
  shows "exponent x = k"
  using floor_log_eqI [OF assms(1,2)] assms(3) by (simp add: exponent_def)

lemma exponent_mono:
  assumes "a \<noteq> 0" and "\<bar>a\<bar> \<le> \<bar>b\<bar>"
  shows "exponent a \<le> exponent b"
proof -
  from assms have "0 < \<bar>a\<bar>" by simp
  with assms(2) have "log 2 \<bar>a\<bar> \<le> log 2 \<bar>b\<bar>" by simp
  then have "\<lfloor>log 2 \<bar>a\<bar>\<rfloor> \<le> \<lfloor>log 2 \<bar>b\<bar>\<rfloor>" by (rule floor_mono)
  then show ?thesis by (simp add: exponent_def)
qed

lemma binary64_minus: "binary64 (- x) = - binary64 x"
  by (simp add: binary64_def round_even_minus)

lemma round_even_0 [simp]: "round_even 0 = 0"
  using round_even_of_int [of 0] by simp

lemma binary64_0 [simp]: "binary64 0 = 0"
  by (simp add: binary64_def)

lemma binary64_nonneg:
  assumes "0 \<le> x"
  shows "0 \<le> binary64 x"
proof -
  from assms quantum_pos [of x] have "0 \<le> x / quantum x" by simp
  then have "round_even 0 \<le> round_even (x / quantum x)" by (rule round_even_mono)
  then have "0 \<le> round_even (x / quantum x)" by simp
  with quantum_pos [of x] show ?thesis by (simp add: binary64_def)
qed

lemma quantum_times:
  "quantum x * 2 powr real_of_int j = 2 powr real_of_int (exponent x - 52 + j)"
  by (simp add: quantum_def powr_add)

lemma quantum_53: "quantum x * 2 powr real_of_int 53 = 2 powr real_of_int (exponent x + 1)"
proof -
  have "exponent x - 52 + 53 = exponent x + 1" by simp
  then show ?thesis unfolding quantum_times by (simp only:)
qed

lemma quantum_52: "quantum x * 2 powr real_of_int 52 = 2 powr real_of_int (exponent x)"
proof -
  have "exponent x - 52 + 52 = exponent x" by simp
  then show ?thesis unfolding quantum_times by (simp only:)
qed

lemma binary64_upper:
  assumes "0 < x"
  shows "binary64 x \<le> 2 powr real_of_int (exponent x + 1)"
proof -
  from abs_less_exponent [of x] assms have "x < 2 powr real_of_int (exponent x + 1)" by simp
  also have "\<dots> = quantum x * 2 powr real_of_int 53"
    by (simp only: quantum_53)
  finally have "x / quantum x \<le> 2 powr real_of_int 53"
    using quantum_pos [of x] by (simp add: field_simps)
  also have "2 powr real_of_int 53 = of_int (2 ^ 53)"
    using pw_nat [of 53] by simp
  finally have "round_even (x / quantum x) \<le> round_even (of_int (2 ^ 53))"
    by (rule round_even_mono)
  then have "of_int (round_even (x / quantum x)) \<le> (of_int (2 ^ 53) :: real)"
    unfolding round_even_of_int by (simp only: of_int_le_iff)
  then have "binary64 x \<le> of_int (2 ^ 53) * quantum x"
    unfolding binary64_def using quantum_pos [of x] by (intro mult_right_mono) simp_all
  also have "of_int (2 ^ 53) = 2 powr real_of_int 53"
    using pw_nat [of 53] by simp
  also have "2 powr real_of_int 53 * quantum x = 2 powr real_of_int (exponent x + 1)"
    using quantum_53 [of x] by (simp only: mult.commute)
  finally show ?thesis .
qed

lemma binary64_lower:
  assumes "0 < x" and "- 1022 < exponent x"
  shows "2 powr real_of_int (exponent x) \<le> binary64 x"
proof -
  from exponent_le_abs [of x] assms have "2 powr real_of_int (exponent x) \<le> x" by simp
  moreover have "2 powr real_of_int (exponent x) = quantum x * 2 powr real_of_int 52"
    by (simp only: quantum_52)
  ultimately have "2 powr real_of_int 52 \<le> x / quantum x"
    using quantum_pos [of x] by (simp add: field_simps)
  moreover have "2 powr real_of_int 52 = of_int (2 ^ 52)"
    using pw_nat [of 52] by simp
  ultimately have "round_even (of_int (2 ^ 52)) \<le> round_even (x / quantum x)"
    by (intro round_even_mono) simp
  then have "(of_int (2 ^ 52) :: real) \<le> of_int (round_even (x / quantum x))"
    unfolding round_even_of_int by (simp only: of_int_le_iff)
  then have "of_int (2 ^ 52) * quantum x \<le> binary64 x"
    unfolding binary64_def using quantum_pos [of x] by (intro mult_right_mono) simp_all
  moreover have "of_int (2 ^ 52) = 2 powr real_of_int 52"
    using pw_nat [of 52] by simp
  moreover have "2 powr real_of_int 52 * quantum x = 2 powr real_of_int (exponent x)"
    using quantum_52 [of x] by (simp only: mult.commute)
  ultimately show ?thesis by simp
qed

lemma binary64_mono_pos:
  assumes "0 < a" and "a \<le> b"
  shows "binary64 a \<le> binary64 b"
proof -
  from assms have b: "0 < b" by simp
  from assms have "exponent a \<le> exponent b" by (intro exponent_mono) simp_all
  then consider "exponent a = exponent b" | "exponent a < exponent b" by linarith
  then show ?thesis
  proof cases
    case 1
    then have q: "quantum a = quantum b" by (simp add: quantum_def)
    from assms(2) quantum_pos [of b] have "a / quantum b \<le> b / quantum b"
      by (simp add: divide_right_mono)
    then have "round_even (a / quantum b) \<le> round_even (b / quantum b)"
      by (rule round_even_mono)
    then have "(of_int (round_even (a / quantum b)) :: real) \<le> of_int (round_even (b / quantum b))"
      by (simp only: of_int_le_iff)
    then show ?thesis
      unfolding binary64_def q using quantum_pos [of b] by (intro mult_right_mono) simp_all
  next
    case 2
    then have lo: "- 1022 < exponent b" using exponent_ge [of a] by linarith
    from 2 have "exponent a + 1 \<le> exponent b" by simp
    then have "2 powr real_of_int (exponent a + 1) \<le> 2 powr real_of_int (exponent b)"
      by (rule pw_mono)
    with binary64_upper [OF assms(1)] binary64_lower [OF b lo] show ?thesis by linarith
  qed
qed

lemma binary64_mono:
  assumes "a \<le> b"
  shows "binary64 a \<le> binary64 b"
proof -
  consider "0 < a" | "a \<le> 0" "0 \<le> b" | "b < 0" using assms by linarith
  then show ?thesis
  proof cases
    case 1
    then show ?thesis using assms by (rule binary64_mono_pos)
  next
    case 2
    from 2(1) have "0 \<le> binary64 (- a)" by (intro binary64_nonneg) simp
    then have "binary64 a \<le> 0" by (simp add: binary64_minus)
    with binary64_nonneg [OF 2(2)] show ?thesis by linarith
  next
    case 3
    with assms have "0 < - b" and "- b \<le> - a" by simp_all
    then have "binary64 (- b) \<le> binary64 (- a)" by (rule binary64_mono_pos)
    then show ?thesis by (simp add: binary64_minus)
  qed
qed


lemma binary64_dyadic:
  assumes m: "\<bar>m\<bar> < 2 ^ 53" and k: "- 1074 \<le> k"
  shows "binary64 (of_int m * 2 powr real_of_int k) = of_int m * 2 powr real_of_int k"
proof (cases "m = 0")
  case True
  then show ?thesis by simp
next
  case False
  define x where "x = of_int m * 2 powr real_of_int k"
  from False have x0: "x \<noteq> 0" by (simp add: x_def)
  have ax: "\<bar>x\<bar> = of_int \<bar>m\<bar> * 2 powr real_of_int k"
    by (simp add: x_def abs_mult)
  from m have "(of_int \<bar>m\<bar> :: real) < of_int (2 ^ 53)" by (simp only: of_int_less_iff)
  then have "\<bar>x\<bar> < of_int (2 ^ 53) * 2 powr real_of_int k"
    unfolding ax by (intro mult_strict_right_mono) simp_all
  also have "of_int (2 ^ 53) = 2 powr real_of_int 53"
    using pw_nat [of 53] by simp
  also have "2 powr real_of_int 53 * 2 powr real_of_int k = 2 powr real_of_int (53 + k)"
    by (simp only: pw_add)
  finally have "\<bar>x\<bar> < 2 powr real_of_int (53 + k)" .
  with floor_log_bounds(1) [OF x0]
  have "2 powr real_of_int \<lfloor>log 2 \<bar>x\<bar>\<rfloor> < 2 powr real_of_int (53 + k)" by linarith
  then have "\<lfloor>log 2 \<bar>x\<bar>\<rfloor> < 53 + k" by (simp only: pw_less_cancel)
  with k have e: "exponent x - 52 \<le> k" by (simp add: exponent_def)
  define j where "j = k - (exponent x - 52)"
  from e have j: "0 \<le> j" by (simp add: j_def)
  have "exponent x - 52 + j = k" by (simp add: j_def)
  then have qk: "quantum x * 2 powr real_of_int j = 2 powr real_of_int k"
    unfolding quantum_times by (simp only:)
  have pj: "2 powr real_of_int j = of_int (2 ^ nat j)"
    using j by (rule pw_nat)
  have x1: "x = of_int m * (quantum x * 2 powr real_of_int j)"
    unfolding qk by (simp add: x_def)
  have "of_int m * (quantum x * 2 powr real_of_int j) = of_int (m * 2 ^ nat j) * quantum x"
    unfolding pj by simp
  with x1 have xq: "x = of_int (m * 2 ^ nat j) * quantum x"
    by (rule trans)
  then have "x / quantum x = of_int (m * 2 ^ nat j)"
    using quantum_pos [of x] by (simp add: field_simps)
  then have "round_even (x / quantum x) = m * 2 ^ nat j"
    by (simp only: round_even_of_int)
  then have "binary64 x = of_int (m * 2 ^ nat j) * quantum x"
    by (simp only: binary64_def)
  with xq have "binary64 x = x" by simp
  then show ?thesis by (simp only: x_def)
qed

lemma is_double_int: "\<bar>m\<bar> < 2 ^ 53 \<Longrightarrow> is_double (of_int m)"
  using binary64_dyadic [of m 0] by (simp add: is_double_def)

lemma is_double_nat: "n < 2 ^ 53 \<Longrightarrow> is_double (real n)"
  using is_double_int [of "int n"] by simp

lemma is_double_div_pow2:
  assumes "\<bar>m\<bar> < 2 ^ 53" and "n \<le> 1074"
  shows "is_double (of_int m / 2 ^ n)"
proof -
  have "2 powr real_of_int (- int n) = 1 / 2 ^ n"
    using powr_real_of_int [of 2 "- int n"] by (simp add: field_simps)
  with binary64_dyadic [of m "- int n"] assms show ?thesis
    by (simp add: is_double_def)
qed

lemma is_double_minus: "is_double x \<Longrightarrow> is_double (- x)"
  by (simp add: is_double_def binary64_minus)

lemma is_double_binary64: "is_double (binary64 x)"
proof -
  define n where "n = round_even (x / quantum x)"
  have b: "binary64 x = of_int n * 2 powr real_of_int (exponent x - 52)"
    by (simp add: binary64_def n_def quantum_def)
  have k: "- 1074 \<le> exponent x - 52" using exponent_ge [of x] by simp
  have k': "- 1074 \<le> exponent x - 52 + 1" using exponent_ge [of x] by simp
  have "\<bar>x\<bar> < quantum x * 2 powr real_of_int 53"
    using abs_less_exponent [of x] by (simp only: quantum_53)
  then have "\<bar>x / quantum x\<bar> < 2 powr real_of_int 53"
    using quantum_pos [of x] by (simp add: field_simps)
  also have "2 powr real_of_int 53 = of_int (2 ^ 53)"
    using pw_nat [of 53] by simp
  finally have lt: "\<bar>x / quantum x\<bar> < of_int (2 ^ 53)" .
  then have "x / quantum x \<le> of_int (2 ^ 53)" and "- of_int (2 ^ 53) \<le> x / quantum x"
    by linarith+
  then have up: "x / quantum x \<le> of_int (2 ^ 53)"
    and dn: "of_int (- (2 ^ 53)) \<le> x / quantum x"
    by (simp_all only: of_int_minus)
  from up have "round_even (x / quantum x) \<le> round_even (of_int (2 ^ 53))"
    by (rule round_even_mono)
  moreover from dn have "round_even (of_int (- (2 ^ 53))) \<le> round_even (x / quantum x)"
    by (rule round_even_mono)
  ultimately have "n \<le> 2 ^ 53" and "- (2 ^ 53) \<le> n"
    unfolding round_even_of_int n_def by simp_all
  then consider "\<bar>n\<bar> < 2 ^ 53" | "n = 2 ^ 53" | "n = - (2 ^ 53)" by linarith
  then show ?thesis
  proof cases
    case 1
    from binary64_dyadic [OF 1 k] show ?thesis
      unfolding is_double_def b .
  next
    case 2
    have "binary64 x = of_int (2 ^ 52) * 2 powr real_of_int (exponent x - 52 + 1)"
      unfolding b 2 pw_add by simp
    moreover have "\<bar>2 ^ 52 :: int\<bar> < 2 ^ 53" by simp
    from binary64_dyadic [OF this k']
    have "is_double (of_int (2 ^ 52) * 2 powr real_of_int (exponent x - 52 + 1))"
      by (simp only: is_double_def)
    ultimately show ?thesis by simp
  next
    case 3
    have "binary64 x = of_int (- (2 ^ 52)) * 2 powr real_of_int (exponent x - 52 + 1)"
      unfolding b 3 pw_add by simp
    moreover have "\<bar>- (2 ^ 52) :: int\<bar> < 2 ^ 53" by simp
    from binary64_dyadic [OF this k']
    have "is_double (of_int (- (2 ^ 52)) * 2 powr real_of_int (exponent x - 52 + 1))"
      by (simp only: is_double_def)
    ultimately show ?thesis by simp
  qed
qed


lemma binary64_error_upper: "binary64 x \<le> x + quantum x / 2"
proof -
  have "of_int (round_even (x / quantum x)) \<le> x / quantum x + 1/2"
    using round_even_error [of "x / quantum x"] by linarith
  then have "of_int (round_even (x / quantum x)) * quantum x \<le> (x / quantum x + 1/2) * quantum x"
    using quantum_pos [of x] by (intro mult_right_mono) simp_all
  also have "\<dots> = x + quantum x / 2"
    using quantum_pos [of x] by (simp add: field_simps)
  finally show ?thesis by (simp only: binary64_def)
qed

lemma near_nat:
  fixes w :: nat
  assumes w1: "1 \<le> w" and w32: "w < 2 ^ 32" and lo: "real w \<le> r" and hi: "r < real w + 1"
  shows "quantum r = quantum (real w)"
    and "quantum (real w) < 1"
    and "\<exists>M. even M \<and> real w = of_int M * quantum (real w)"
proof -
  define e where "e = \<lfloor>log 2 \<bar>real w\<bar>\<rfloor>"
  from w1 have w0: "real w \<noteq> 0" by simp
  from floor_log_bounds [OF w0] have el: "2 powr real_of_int e \<le> real w"
    and eu: "real w < 2 powr real_of_int (e + 1)"
    by (simp_all add: e_def)
  from w1 have "2 powr real_of_int 0 \<le> real w" by simp
  with eu have "2 powr real_of_int 0 < 2 powr real_of_int (e + 1)" by linarith
  then have "0 < e + 1" by (simp only: pw_less_cancel)
  then have e0: "0 \<le> e" by simp
  have "2 powr real_of_int 32 = of_int (2 ^ 32)" using pw_nat [of 32] by simp
  moreover from w32 have "real w < of_int (2 ^ 32)" by simp
  ultimately have "2 powr real_of_int e < 2 powr real_of_int 32" using el by linarith
  then have e31: "e < 32" by (simp only: pw_less_cancel)
  have pe: "2 powr real_of_int (e + 1) = of_int (2 ^ nat (e + 1))"
    using e0 by (intro pw_nat) simp
  with eu have "real_of_int (int w) < of_int (2 ^ nat (e + 1))" by simp
  then have "int w < 2 ^ nat (e + 1)" by (simp only: of_int_less_iff)
  then have "int w + 1 \<le> 2 ^ nat (e + 1)" by linarith
  then have "real_of_int (int w + 1) \<le> of_int (2 ^ nat (e + 1))" by (simp only: of_int_le_iff)
  with pe have top: "real w + 1 \<le> 2 powr real_of_int (e + 1)" by simp
  have ew: "exponent (real w) = e"
    using e0 by (simp add: exponent_def e_def)
  from lo w1 have r0: "0 \<le> r" by simp
  have "exponent r = e"
  proof (rule exponent_eqI)
    from el lo r0 show "2 powr real_of_int e \<le> \<bar>r\<bar>" by simp
    from hi top r0 show "\<bar>r\<bar> < 2 powr real_of_int (e + 1)" by simp
    from e0 show "- 1022 \<le> e" by simp
  qed
  with ew show "quantum r = quantum (real w)" by (simp add: quantum_def)
  have "quantum (real w) = 2 powr real_of_int (e - 52)" by (simp add: quantum_def ew)
  also from e31 have "\<dots> < 2 powr real_of_int 0" by (simp only: pw_less_cancel)
  finally show "quantum (real w) < 1" by simp
  define j where "j = 52 - e"
  from e31 have j1: "1 \<le> j" by (simp add: j_def)
  have "exponent (real w) - 52 + j = 0" by (simp add: ew j_def)
  then have "quantum (real w) * 2 powr real_of_int j = 2 powr real_of_int 0"
    unfolding quantum_times by (simp only:)
  moreover have "2 powr real_of_int j = of_int (2 ^ nat j)"
    using j1 by (intro pw_nat) simp
  ultimately have one: "quantum (real w) * of_int (2 ^ nat j) = 1" by simp
  have "real w = real w * (quantum (real w) * of_int (2 ^ nat j))"
    unfolding one by simp
  also have "\<dots> = of_int (int w * 2 ^ nat j) * quantum (real w)" by simp
  finally have "real w = of_int (int w * 2 ^ nat j) * quantum (real w)" .
  moreover from j1 have "even (int w * 2 ^ nat j)" by simp
  ultimately show "\<exists>M. even M \<and> real w = of_int M * quantum (real w)" by blast
qed

lemma binary64_round_trip:
  fixes w :: nat
  assumes w32: "w < 2 ^ 32" and a0: "0 \<le> a" and a1: "a \<le> 1/4" and da: "is_double a"
  shows "binary64 (binary64 (real w + a) - a) \<le> real w"
proof (cases "w = 0")
  case True
  with da show ?thesis by (simp add: is_double_def)
next
  case False
  then have w1: "1 \<le> w" by simp
  let ?q = "quantum (real w)"
  from a0 a1 have "real w \<le> real w + a" and "real w + a < real w + 1" by simp_all
  from near_nat(1) [OF w1 w32 this] have qa: "quantum (real w + a) = ?q" .
  from near_nat(2) [OF w1 w32, of "real w"] have q1: "?q < 1" by simp
  from near_nat(3) [OF w1 w32, of "real w"] obtain M where ev: "even M"
    and M: "real w = of_int M * ?q" by auto
  have "binary64 (real w + a) \<le> real w + a + ?q / 2"
    using binary64_error_upper [of "real w + a"] by (simp only: qa)
  then have "binary64 (real w + a) - a \<le> real w + ?q / 2" by simp
  then have "binary64 (binary64 (real w + a) - a) \<le> binary64 (real w + ?q / 2)"
    by (rule binary64_mono)
  also have "binary64 (real w + ?q / 2) = real w"
  proof -
    from q1 quantum_pos [of "real w"]
    have "real w \<le> real w + ?q / 2" and "real w + ?q / 2 < real w + 1" by simp_all
    from near_nat(1) [OF w1 w32 this] have qh: "quantum (real w + ?q / 2) = ?q" .
    have "(real w + ?q / 2) / ?q = real w / ?q + 1/2"
      using quantum_pos [of "real w"] by (simp add: field_simps)
    also have "real w / ?q = of_int M"
      using M quantum_pos [of "real w"] by (simp add: field_simps)
    finally have "round_even ((real w + ?q / 2) / ?q) = M"
      using round_even_half_even [OF ev] by simp
    then have "binary64 (real w + ?q / 2) = of_int M * ?q"
      by (simp only: binary64_def qh)
    with M show ?thesis by simp
  qed
  finally show ?thesis .
qed

lemma is_double_plus_quarter:
  fixes w :: nat
  assumes "w < 2 ^ 32"
  shows "is_double (real w + 1/4)"
proof -
  from assms have "\<bar>4 * int w + 1\<bar> < 2 ^ 53" by simp
  from is_double_div_pow2 [OF this, of 2] show ?thesis
    by (simp add: field_simps)
qed

lemma round_even_below_half:
  assumes "0 \<le> d" and "d < 1/2"
  shows "round_even (of_int m + d) = m"
proof -
  have "\<lfloor>of_int m + d\<rfloor> = m" using assms by linarith
  with assms show ?thesis by (simp add: round_even_def Let_def)
qed

lemma round_even_above_half:
  assumes "1/2 < d" and "d < 1"
  shows "round_even (of_int m + d) = m + 1"
proof -
  have "\<lfloor>of_int m + d\<rfloor> = m" using assms by linarith
  with assms show ?thesis by (simp add: round_even_def Let_def)
qed

lemma binary64_at:
  assumes "2 powr real_of_int k \<le> \<bar>x\<bar>" and "\<bar>x\<bar> < 2 powr real_of_int (k + 1)"
    and "- 1022 \<le> k"
  shows "binary64 x = of_int (round_even (x / 2 powr real_of_int (k - 52))) * 2 powr real_of_int (k - 52)"
  using exponent_eqI [OF assms] by (simp add: binary64_def quantum_def)

subsection \<open>Facts about Storage\<close>

lemma Storage_set_True:
  assumes "Storage_set js ls key v = (True, ls')" and "stringify js v = Inr (Some text)"
  shows "getItem ls' key = Inr (Some text)"
proof -
  from assms have "setItem ls key text = Inr ls'"
    by (simp add: Storage_set_def split: sum.splits)
  then show ?thesis
    by (auto simp: setItem_def getItem_def split: if_splits)
qed

text \<open>
  Claim C10. Let \<open>v\<close> be a value that \<open>JSON.stringify\<close> turns into a text which
  \<open>JSON.parse\<close> turns back into \<open>v\<close> (a JSON text is never empty). After a
  \<open>Storage.set(key, v)\<close> that returned \<open>true\<close>, \<open>Storage.get(key, d)\<close> returns \<open>v\<close>. And
  \<open>Storage.get\<close> returns the default when reading throws, when the key is absent, and
  when parsing throws.
\<close>

theorem Storage_get_after_set:
  assumes "Storage_set js ls key v = (True, ls')"
    and "stringify js v = Inr (Some text)" and "parse js text = Inr v" and "text \<noteq> ''''"
  shows "Storage_get js ls' key d = v \<and>
         (getItem st k = Inl e \<longrightarrow> Storage_get js st k d = d) \<and>
         (getItem st k = Inr None \<longrightarrow> Storage_get js st k d = d) \<and>
         (getItem st k = Inr (Some s) \<and> parse js s = Inl e \<longrightarrow> Storage_get js st k d = d)"
proof -
  from Storage_set_True [OF assms(1,2)] assms(3,4)
  have "Storage_get js ls' key d = v"
    by (simp add: Storage_get_def)
  then show ?thesis
    by (simp add: Storage_get_def)
qed

theorem Storage_get_after_set_witness:
  "Storage_set bool_json \<lparr>stored = Map.empty, refused = False, fits = (\<lambda>k t. True)\<rparr> ''seen'' False
     = (True, \<lparr>stored = [''seen'' \<mapsto> ''false''], refused = False, fits = (\<lambda>k t. True)\<rparr>) \<and>
   Storage_get bool_json
     \<lparr>stored = [''seen'' \<mapsto> ''false''], refused = False, fits = (\<lambda>k t. True)\<rparr> ''seen'' True = False \<and>
   Storage_get bool_json
     \<lparr>stored = Map.empty, refused = False, fits = (\<lambda>k t. True)\<rparr> ''seen'' True = True"
proof -
  let ?ls = "\<lparr>stored = Map.empty, refused = False, fits = (\<lambda>k t. True)\<rparr>"
  let ?ls' = "\<lparr>stored = [''seen'' \<mapsto> ''false''], refused = False, fits = (\<lambda>k t. True)\<rparr>"
  have a: "Storage_set bool_json ?ls ''seen'' False = (True, ?ls')"
    by (simp add: Storage_set_def bool_json_def setItem_def)
  have b: "stringify bool_json False = Inr (Some ''false'')"
    by (simp add: bool_json_def)
  have c: "parse bool_json ''false'' = Inr False"
    by (simp add: bool_json_def)
  have d: "''false'' \<noteq> ''''" by simp
  have e: "getItem ?ls ''seen'' = Inr None"
    by (simp add: getItem_def)
  from Storage_get_after_set [OF a b c d, where st = ?ls and k = "''seen''" and d = True] a e
  show ?thesis by simp
qed


subsection \<open>Facts about the particles\<close>

lemma axis_ok_step:
  assumes ok: "axis_ok w x v" and w32: "w < 2 ^ 32"
  shows "axis_ok w (binary64 (x + v))
           (if binary64 (x + v) < 0 \<or> binary64 (x + v) > real w then binary64 (v * (- 1)) else v)"
proof -
  let ?W = "real w"
  let ?x' = "binary64 (x + v)"
  from ok have dv: "is_double v" and av: "\<bar>v\<bar> \<le> 1/4" by (simp_all add: axis_ok_def)
  from dv have bv: "binary64 v = v" by (simp add: is_double_def)
  from dv have dn: "is_double (- v)" by (rule is_double_minus)
  then have neg: "binary64 (v * (- 1)) = - v" "binary64 (- v) = - v" by (simp_all add: is_double_def)
  from w32 have "is_double ?W" by (intro is_double_nat) simp
  then have bW: "binary64 ?W = ?W" by (simp add: is_double_def)
  from ok consider
      (A) "0 \<le> x" "x \<le> ?W"
    | (B) "x < 0" "- v \<le> x" "0 \<le> v"
    | (C) "?W < x" "x \<le> binary64 (?W - v)" "v \<le> 0"
    by (auto simp: axis_ok_def)
  then have bounds:
    "(0 \<le> v \<longrightarrow> 0 \<le> ?x' \<and> ?x' \<le> binary64 (?W + v)) \<and>
     (v \<le> 0 \<longrightarrow> v \<le> ?x' \<and> ?x' \<le> ?W)"
  proof cases
    case A
    have "0 \<le> ?x'" if "0 \<le> v"
      using that A by (intro binary64_nonneg) simp
    moreover have "?x' \<le> binary64 (?W + v)"
      using A by (intro binary64_mono) simp
    moreover have "v \<le> ?x'"
      using binary64_mono [of v "x + v"] A bv by simp
    moreover have "?x' \<le> ?W" if "v \<le> 0"
      using binary64_mono [of "x + v" ?W] that A bW by simp
    ultimately show ?thesis by blast
  next
    case B
    have "0 \<le> ?x'" using B by (intro binary64_nonneg) simp
    moreover have "?x' \<le> binary64 (?W + v)"
      using B by (intro binary64_mono) simp
    moreover have "v \<le> ?x'" if "v \<le> 0"
      using that B by simp
    moreover have "?x' \<le> ?W" if "v \<le> 0"
    proof -
      from that B have "v = 0" by simp
      with B show ?thesis by simp
    qed
    ultimately show ?thesis by blast
  next
    case C
    from C av have a: "0 \<le> - v" "- v \<le> 1/4" by simp_all
    from binary64_round_trip [OF w32 a dn]
    have rt: "binary64 (binary64 (?W - v) + v) \<le> ?W" by simp
    from C have "x + v \<le> binary64 (?W - v) + v" by simp
    then have "?x' \<le> binary64 (binary64 (?W - v) + v)" by (rule binary64_mono)
    with rt have up: "?x' \<le> ?W" by linarith
    have lo: "v \<le> ?x'"
      using binary64_mono [of v "x + v"] C bv by simp
    have "0 \<le> ?x' \<and> ?x' \<le> binary64 (?W + v)" if "0 \<le> v"
    proof -
      from that C have v0: "v = 0" by simp
      with C bW have False by simp
      then show ?thesis ..
    qed
    with up lo show ?thesis by blast
  qed
  show ?thesis
  proof (cases "0 \<le> v")
    case True
    with bounds have b: "0 \<le> ?x'" "?x' \<le> binary64 (?W + v)" by simp_all
    show ?thesis
    proof (cases "?x' > ?W")
      case True
      with b \<open>0 \<le> v\<close> dn av show ?thesis
        by (simp add: axis_ok_def neg)
    next
      case False
      with b dv av show ?thesis
        by (simp add: axis_ok_def)
    qed
  next
    case False
    then have vneg: "v \<le> 0" "v < 0" by simp_all
    with bounds have b: "v \<le> ?x'" "?x' \<le> ?W" by simp_all
    show ?thesis
    proof (cases "?x' < 0")
      case True
      with b vneg dn av show ?thesis
        by (simp add: axis_ok_def neg)
    next
      case False
      with b dv av show ?thesis
        by (simp add: axis_ok_def)
    qed
  qed
qed

lemma binary64_fixed: "is_double x \<Longrightarrow> binary64 x = x"
  by (simp add: is_double_def)

lemma axis_ok_bound:
  assumes ok: "axis_ok w x v" and w32: "w < 2 ^ 32"
  shows "- \<bar>v\<bar> \<le> x \<and> x \<le> binary64 (real w + \<bar>v\<bar>) \<and> - (1/4) \<le> x \<and> x \<le> real w + 1/4"
proof -
  let ?W = "real w"
  from ok have av: "\<bar>v\<bar> \<le> 1/4" by (simp add: axis_ok_def)
  from w32 have "is_double ?W" by (intro is_double_nat) simp
  then have bW: "binary64 ?W = ?W" by (rule binary64_fixed)
  have q: "binary64 (?W + 1/4) = ?W + 1/4"
    using w32 by (intro binary64_fixed is_double_plus_quarter)
  have "?W \<le> ?W + \<bar>v\<bar>" by simp
  then have "binary64 ?W \<le> binary64 (?W + \<bar>v\<bar>)" by (rule binary64_mono)
  with bW have geW: "?W \<le> binary64 (?W + \<bar>v\<bar>)" by simp
  from av have "binary64 (?W + \<bar>v\<bar>) \<le> binary64 (?W + 1/4)"
    by (intro binary64_mono) simp
  with q have leq: "binary64 (?W + \<bar>v\<bar>) \<le> ?W + 1/4" by simp
  from ok consider
      (A) "0 \<le> x" "x \<le> ?W"
    | (B) "x < 0" "- v \<le> x" "0 \<le> v"
    | (C) "?W < x" "x \<le> binary64 (?W - v)" "v \<le> 0"
    by (auto simp: axis_ok_def)
  then have "- \<bar>v\<bar> \<le> x \<and> x \<le> binary64 (?W + \<bar>v\<bar>)"
  proof cases
    case A
    with geW show ?thesis by simp
  next
    case B
    with geW show ?thesis by simp
  next
    case C
    then have "\<bar>v\<bar> = - v" by simp
    with C show ?thesis by simp
  qed
  with av leq show ?thesis by linarith
qed

lemma particle_ok_update:
  assumes "particle_ok c p" and "width c < 2 ^ 32" and "height c < 2 ^ 32"
  shows "particle_ok c (update_particle c p)"
  using axis_ok_step [of "width c" "pos_x p" "speedX p"]
    axis_ok_step [of "height c" "pos_y p" "speedY p"] assms
  unfolding particle_ok_def update_particle_def Let_def
  by simp

lemma particle_ok_within:
  assumes "particle_ok c p" and "width c < 2 ^ 32" and "height c < 2 ^ 32"
  shows "within_one_step c p \<and> within_quarter c p"
  using axis_ok_bound [of "width c" "pos_x p" "speedX p"]
    axis_ok_bound [of "height c" "pos_y p" "speedY p"] assms
  unfolding particle_ok_def within_one_step_def within_quarter_def
  by simp

lemma updateParticles_funpow:
  "(updateParticles c ^^ n) ps = map (update_particle c ^^ n) ps"
proof (induction n)
  case 0
  show ?case by simp
next
  case (Suc n)
  then show ?case by (simp add: updateParticles_def)
qed

lemma particle_ok_funpow:
  assumes "particle_ok c p" and "width c < 2 ^ 32" and "height c < 2 ^ 32"
  shows "particle_ok c ((update_particle c ^^ n) p)"
  using assms by (induction n) (simp_all add: particle_ok_update)

lemma speed_quarter:
  assumes "0 \<le> r" and "r < 1"
  shows "is_double (binary64 (binary64 (r - 0.5) * 0.5))"
    and "\<bar>binary64 (binary64 (r - 0.5) * 0.5)\<bar> \<le> 1/4"
proof -
  show "is_double (binary64 (binary64 (r - 0.5) * 0.5))" by (rule is_double_binary64)
  have h: "binary64 (1/2) = 1/2" and q: "binary64 (1/4) = 1/4"
    using is_double_div_pow2 [of 1 1] is_double_div_pow2 [of 1 2] by (simp_all add: is_double_def)
  have hn: "binary64 (- (1/2)) = - (1/2)" and qn: "binary64 (- (1/4)) = - (1/4)"
    using h q by (simp_all add: binary64_minus)
  from assms have "binary64 (- (1/2)) \<le> binary64 (r - 0.5)" and "binary64 (r - 0.5) \<le> binary64 (1/2)"
    by (intro binary64_mono; simp)+
  then have lo: "- (1/4) \<le> binary64 (r - 0.5) * 0.5" and hi: "binary64 (r - 0.5) * 0.5 \<le> 1/4"
    unfolding h hn by simp_all
  from lo have "binary64 (- (1/4)) \<le> binary64 (binary64 (r - 0.5) * 0.5)"
    by (rule binary64_mono)
  moreover from hi have "binary64 (binary64 (r - 0.5) * 0.5) \<le> binary64 (1/4)"
    by (rule binary64_mono)
  ultimately show "\<bar>binary64 (binary64 (r - 0.5) * 0.5)\<bar> \<le> 1/4"
    unfolding q qn by linarith
qed

lemma position_in_range:
  fixes w :: nat
  assumes "0 \<le> r" and "r < 1" and "w < 2 ^ 32"
  shows "0 \<le> binary64 (r * real w)" and "binary64 (r * real w) \<le> real w"
proof -
  from assms show "0 \<le> binary64 (r * real w)" by (intro binary64_nonneg) simp
  from assms(3) have "is_double (real w)" by (intro is_double_nat) simp
  then have bW: "binary64 (real w) = real w" by (rule binary64_fixed)
  from assms have "r * real w \<le> 1 * real w" by (intro mult_right_mono) simp_all
  then have "binary64 (r * real w) \<le> binary64 (real w)" by (intro binary64_mono) simp
  with bW show "binary64 (r * real w) \<le> real w" by simp
qed

lemma new_particle_ok:
  assumes "0 \<le> r1" "r1 < 1" "0 \<le> r2" "r2 < 1" "0 \<le> r4" "r4 < 1" "0 \<le> r5" "r5 < 1"
    and "width c < 2 ^ 32" and "height c < 2 ^ 32"
  shows "particle_ok c (new_particle c r1 r2 r3 r4 r5 r6) \<and>
         in_canvas c (new_particle c r1 r2 r3 r4 r5 r6)"
  using position_in_range [of r1 "width c"] position_in_range [of r2 "height c"]
    speed_quarter [of r4] speed_quarter [of r5] assms
  by (simp add: particle_ok_def axis_ok_def in_canvas_def new_particle_def)

lemma createParticles_ok:
  assumes "\<And>i. 0 \<le> random i \<and> random i < 1"
    and "width c < 2 ^ 32" and "height c < 2 ^ 32"
  shows "list_all (\<lambda>p. particle_ok c p \<and> in_canvas c p) (createParticles c isMobile random)"
  unfolding createParticles_def Let_def list_all_iff
  using assms by (auto intro!: new_particle_ok [THEN conjunct1] new_particle_ok [THEN conjunct2])

lemma binary64_values:
  "binary64 1 = 1" "binary64 64 = 64" "binary64 (1/8) = 1/8" "binary64 (3/8) = 3/8"
  "binary64 (3/16) = 3/16" "binary64 (1/16) = 1/16" "binary64 16 = 16"
  "binary64 (253/16) = 253/16" "binary64 (125/8) = 125/8"
  using is_double_int [of 1] is_double_int [of 64] is_double_int [of 16]
    is_double_div_pow2 [of 1 3] is_double_div_pow2 [of 3 3] is_double_div_pow2 [of 3 4]
    is_double_div_pow2 [of 1 4] is_double_div_pow2 [of 253 4] is_double_div_pow2 [of 125 3]
  by (simp_all add: is_double_def)

text \<open>
  The rounded bound is reached: the first sum rounds down to the edge, so the speed is
  not flipped, and the second sum rounds up, past the exact sum of width and speed.
\<close>

lemma powr_128: "2 powr real_of_int 7 = 128" "2 powr real_of_int (7 + 1) = 256"
  "2 powr real_of_int (7 - 52) = 1 / 2 ^ 45"
  using powr_real_of_int [of 2 7] powr_real_of_int [of 2 8] powr_real_of_int [of 2 "- 45"]
  by (simp_all add: field_simps)

lemma edge_first_sum: "binary64 (1023/8 - 1/2^46 + (1/8 + 3/2^47)) = 128"
proof -
  have x: "(1023/8 - 1/2^46 + (1/8 + 3/2^47) :: real) = 128 + 1/2^47" by simp
  have r: "(128 + 1/2^47) / (1 / 2 ^ 45) = real_of_int (2 ^ 52) + 1/4" by simp
  have "binary64 (128 + 1/2^47) =
      of_int (round_even ((128 + 1/2^47) / 2 powr real_of_int (7 - 52))) * 2 powr real_of_int (7 - 52)"
    by (rule binary64_at) (simp_all add: powr_128)
  also have "\<dots> = 128"
    unfolding powr_128 r by (subst round_even_below_half) simp_all
  finally show ?thesis unfolding x .
qed

lemma edge_second_sum: "binary64 (128 + (1/8 + 3/2^47)) = 128 + 1/8 + 1/2^45"
proof -
  have r: "(128 + (1/8 + 3/2^47)) / (1 / 2 ^ 45) = real_of_int (2 ^ 52 + 2 ^ 42) + 3/4" by simp
  have "binary64 (128 + (1/8 + 3/2^47)) =
      of_int (round_even ((128 + (1/8 + 3/2^47)) / 2 powr real_of_int (7 - 52))) * 2 powr real_of_int (7 - 52)"
    by (rule binary64_at) (simp_all add: powr_128)
  also have "\<dots> = 128 + 1/8 + 1/2^45"
    unfolding powr_128 r by (subst round_even_above_half) simp_all
  finally show ?thesis .
qed


lemma edge_speed: "binary64 (1/8 + 3/2^47) = 1/8 + 3/2^47" "binary64 (- (1/8 + 3/2^47)) = - (1/8 + 3/2^47)"
proof -
  have "(of_int (2 ^ 44 + 3) / 2 ^ 47 :: real) = 1/8 + 3/2^47" by simp
  with is_double_div_pow2 [of "2 ^ 44 + 3" 47]
  have d: "is_double (1/8 + 3/2^47)" by simp
  then show "binary64 (1/8 + 3/2^47) = 1/8 + 3/2^47" by (simp add: is_double_def)
  from d have "is_double (- (1/8 + 3/2^47))" by (rule is_double_minus)
  then show "binary64 (- (1/8 + 3/2^47)) = - (1/8 + 3/2^47)" by (simp add: is_double_def)
qed

lemma particle_rounded_steps:
  "pos_x (update_particle edge_canvas edge_particle) = 128"
  "speedX (update_particle edge_canvas edge_particle) = 1/8 + 3/2^47"
  "pos_x (update_particle edge_canvas (update_particle edge_canvas edge_particle)) = 128 + 1/8 + 1/2^45"
  "real (width edge_canvas) + \<bar>speedX edge_particle\<bar> <
     pos_x (update_particle edge_canvas (update_particle edge_canvas edge_particle))"
  "within_one_step edge_canvas (update_particle edge_canvas (update_particle edge_canvas edge_particle))"
proof -
  let ?p = "edge_particle\<lparr>pos_x := 128\<rparr>"
  have nx: "binary64 (pos_x edge_particle + speedX edge_particle) = 128"
    using edge_first_sum by (simp add: edge_particle_def)
  have ny: "binary64 (pos_y edge_particle + speedY edge_particle) = 64"
    by (simp add: edge_particle_def binary64_values)
  have u1: "update_particle edge_canvas edge_particle = ?p"
    unfolding update_particle_def Let_def nx ny
    by (simp add: edge_canvas_def edge_particle_def)
  have nx2: "binary64 (pos_x ?p + speedX ?p) = 128 + 1/8 + 1/2^45"
    using edge_second_sum by (simp add: edge_particle_def)
  have ny2: "binary64 (pos_y ?p + speedY ?p) = 64"
    by (simp add: edge_particle_def binary64_values)
  have fl: "binary64 (speedX ?p * (- 1)) = - (1/8 + 3/2^47)"
    using edge_speed(2) by (simp add: edge_particle_def)
  have u2: "update_particle edge_canvas ?p =
      edge_particle\<lparr>pos_x := 128 + 1/8 + 1/2^45, speedX := - (1/8 + 3/2^47)\<rparr>"
    unfolding update_particle_def Let_def nx2 ny2 fl
    by (simp add: edge_canvas_def edge_particle_def)
  have bound: "binary64 (128 + \<bar>- (1/8 + 3/2^47)\<bar>) = 128 + 1/8 + 1/2^45"
    using edge_second_sum by simp
  have b128: "binary64 128 = 128"
    using is_double_int [of 128] by (simp add: is_double_def)
  show "pos_x (update_particle edge_canvas edge_particle) = 128"
    unfolding u1 by simp
  show "speedX (update_particle edge_canvas edge_particle) = 1/8 + 3/2^47"
    unfolding u1 by (simp add: edge_particle_def)
  show "pos_x (update_particle edge_canvas (update_particle edge_canvas edge_particle)) = 128 + 1/8 + 1/2^45"
    unfolding u1 u2 by simp
  show "real (width edge_canvas) + \<bar>speedX edge_particle\<bar> <
     pos_x (update_particle edge_canvas (update_particle edge_canvas edge_particle))"
    unfolding u1 u2 by (simp add: edge_canvas_def edge_particle_def)
  show "within_one_step edge_canvas (update_particle edge_canvas (update_particle edge_canvas edge_particle))"
    unfolding u1 u2
    using bound by (simp add: within_one_step_def edge_canvas_def edge_particle_def b128)
qed

text \<open>
  Claim C1, as stated, at a concrete particle: on a canvas of 128 by 128 the particle
  that \<open>createParticles\<close> builds from the random numbers 1/1024, 1/2, 0, 1/8, 1/2, 0
  starts at \<open>x = 1/8\<close> with \<open>speedX = -3/16\<close>; one call of \<open>updateParticles\<close> puts it at
  \<open>x = -1/16\<close>, left of the canvas. No sum or product on the way is rounded.
\<close>

theorem particle_leaves_canvas:
  "in_canvas \<lparr>width = 128, height = 128\<rparr>
     (new_particle \<lparr>width = 128, height = 128\<rparr> (1/1024) (1/2) 0 (1/8) (1/2) 0) \<and>
   pos_x (new_particle \<lparr>width = 128, height = 128\<rparr> (1/1024) (1/2) 0 (1/8) (1/2) 0) = 1/8 \<and>
   speedX (new_particle \<lparr>width = 128, height = 128\<rparr> (1/1024) (1/2) 0 (1/8) (1/2) 0) = - (3/16) \<and>
   pos_x (update_particle \<lparr>width = 128, height = 128\<rparr>
     (new_particle \<lparr>width = 128, height = 128\<rparr> (1/1024) (1/2) 0 (1/8) (1/2) 0)) = - (1/16) \<and>
   \<not> list_all (in_canvas \<lparr>width = 128, height = 128\<rparr>)
     (updateParticles \<lparr>width = 128, height = 128\<rparr>
        [new_particle \<lparr>width = 128, height = 128\<rparr> (1/1024) (1/2) 0 (1/8) (1/2) 0])"
  by (simp add: in_canvas_def new_particle_def updateParticles_def update_particle_def Let_def
      binary64_minus binary64_values)

text \<open>
  Claim C1, amended. On a canvas whose width and height are below \<open>2^32\<close>, the particles
  that \<open>createParticles\<close> builds from random numbers in \<open>[0, 1)\<close> start on the canvas,
  and after any number of calls of \<open>updateParticles\<close> on a canvas that keeps its size
  the pool has the same 30 or 50
  particles and every particle lies on the canvas or beyond an edge by no more than one
  step: \<open>x\<close> is at least \<open>-|speedX|\<close> and at most what \<open>width + |speedX|\<close> rounds to, and
  the same for \<open>y\<close>; in particular both lie within 1/4 of the canvas.
\<close>

theorem updateParticles_within_one_step:
  assumes "width c < 2 ^ 32" and "height c < 2 ^ 32"
    and "\<forall>i. 0 \<le> random i \<and> random i < 1"
  shows "list_all (in_canvas c) (createParticles c isMobile random) \<and>
         list_all (\<lambda>p. within_one_step c p \<and> within_quarter c p)
           ((updateParticles c ^^ n) (createParticles c isMobile random)) \<and>
         length ((updateParticles c ^^ n) (createParticles c isMobile random)) =
           (if isMobile then 30 else 50)"
proof -
  let ?pool = "createParticles c isMobile random"
  from assms have ok: "list_all (\<lambda>p. particle_ok c p \<and> in_canvas c p) ?pool"
    by (intro createParticles_ok) simp_all
  then have start: "list_all (in_canvas c) ?pool"
    by (simp add: list_all_iff)
  have near: "list_all (\<lambda>p. within_one_step c p \<and> within_quarter c p)
      ((updateParticles c ^^ n) ?pool)"
    unfolding updateParticles_funpow list_all_iff
  proof
    fix q assume "q \<in> set (map (update_particle c ^^ n) ?pool)"
    then obtain p where p: "p \<in> set ?pool" and q: "q = (update_particle c ^^ n) p"
      by auto
    from ok p have "particle_ok c p" by (simp add: list_all_iff)
    then have "particle_ok c q"
      unfolding q using assms(1,2) by (rule particle_ok_funpow)
    then show "within_one_step c q \<and> within_quarter c q"
      using assms(1,2) by (rule particle_ok_within)
  qed
  have len: "length ((updateParticles c ^^ n) ?pool) = (if isMobile then 30 else 50)"
    by (simp add: updateParticles_funpow createParticles_def)
  from start near len show ?thesis by simp
qed

theorem updateParticles_within_one_step_witness:
  "list_all (in_canvas \<lparr>width = 128, height = 128\<rparr>)
     (createParticles \<lparr>width = 128, height = 128\<rparr> True (\<lambda>i. 1/8)) \<and>
   list_all (\<lambda>p. within_one_step \<lparr>width = 128, height = 128\<rparr> p \<and>
                  within_quarter \<lparr>width = 128, height = 128\<rparr> p)
     ((updateParticles \<lparr>width = 128, height = 128\<rparr> ^^ 3)
        (createParticles \<lparr>width = 128, height = 128\<rparr> True (\<lambda>i. 1/8))) \<and>
   length ((updateParticles \<lparr>width = 128, height = 128\<rparr> ^^ 3)
        (createParticles \<lparr>width = 128, height = 128\<rparr> True (\<lambda>i. 1/8))) = 30 \<and>
   pos_x ((update_particle \<lparr>width = 128, height = 128\<rparr> ^^ 2)
        (new_particle \<lparr>width = 128, height = 128\<rparr> (1/8) (1/8) (1/8) (1/8) (1/8) (1/8))) = 125/8"
proof -
  have h1: "width \<lparr>width = 128, height = 128\<rparr> < 2 ^ 32" by simp
  have h2: "height \<lparr>width = 128, height = 128\<rparr> < 2 ^ 32" by simp
  have h3: "\<forall>i::nat. 0 \<le> (1/8 :: real) \<and> (1/8 :: real) < 1" by simp
  have x: "pos_x ((update_particle \<lparr>width = 128, height = 128\<rparr> ^^ 2)
        (new_particle \<lparr>width = 128, height = 128\<rparr> (1/8) (1/8) (1/8) (1/8) (1/8) (1/8))) = 125/8"
    by (simp add: numeral_2_eq_2 new_particle_def update_particle_def Let_def
        binary64_minus binary64_values)
  from updateParticles_within_one_step [OF h1 h2 h3, of True 3] x show ?thesis by simp
qed

subsection \<open>Facts about the counter\<close>

lemma counter_progress_mono: "d \<le> e \<Longrightarrow> counter_progress d \<le> counter_progress e"
proof -
  assume "d \<le> e"
  then have "d / duration \<le> e / duration" by (simp add: duration_def divide_right_mono)
  then have "binary64 (d / duration) \<le> binary64 (e / duration)" by (rule binary64_mono)
  then show ?thesis by (simp add: counter_progress_def min_def)
qed

lemma counter_progress_le_1: "counter_progress e \<le> 1"
  by (simp add: counter_progress_def)

lemma easeOutQuart_mono:
  assumes pow: "\<And>a b. 0 \<le> a \<Longrightarrow> a \<le> b \<Longrightarrow> pow a 4 \<le> pow b 4"
    and "p \<le> q" and "q \<le> 1"
  shows "easeOutQuart pow p \<le> easeOutQuart pow q"
proof -
  from assms(3) have "0 \<le> binary64 (1 - q)" by (intro binary64_nonneg) simp
  moreover from assms(2) have "binary64 (1 - q) \<le> binary64 (1 - p)" by (intro binary64_mono) simp
  ultimately have "pow (binary64 (1 - q)) 4 \<le> pow (binary64 (1 - p)) 4" by (rule pow)
  then have "1 - pow (binary64 (1 - p)) 4 \<le> 1 - pow (binary64 (1 - q)) 4" by simp
  then show ?thesis unfolding easeOutQuart_def by (rule binary64_mono)
qed

lemma written_mono:
  assumes pow: "\<And>a b. 0 \<le> a \<Longrightarrow> a \<le> b \<Longrightarrow> pow a 4 \<le> pow b 4"
    and "s \<le> t" and "0 \<le> target"
  shows "written pow target startTime s \<le> written pow target startTime t"
proof -
  let ?p = "\<lambda>u. counter_progress (binary64 (u - startTime))"
  from assms(2) have "binary64 (s - startTime) \<le> binary64 (t - startTime)"
    by (intro binary64_mono) simp
  then have "?p s \<le> ?p t" by (rule counter_progress_mono)
  with pow have "easeOutQuart pow (?p s) \<le> easeOutQuart pow (?p t)"
    using counter_progress_le_1 by (rule easeOutQuart_mono)
  then have "easeOutQuart pow (?p s) * target \<le> easeOutQuart pow (?p t) * target"
    using assms(3) by (rule mult_right_mono)
  then have "binary64 (easeOutQuart pow (?p s) * target) \<le> binary64 (easeOutQuart pow (?p t) * target)"
    by (rule binary64_mono)
  then show ?thesis unfolding written_def by (rule floor_mono)
qed

lemma binary64_small_values:
  "binary64 1 = 1" "binary64 100 = 100" "binary64 1000 = 1000" "binary64 2000 = 2000"
  "binary64 (1/2) = 1/2" "binary64 (1/16) = 1/16" "binary64 (15/16) = 15/16"
  "binary64 (375/4) = 375/4"
  using is_double_int [of 1] is_double_int [of 100] is_double_int [of 1000] is_double_int [of 2000]
    is_double_div_pow2 [of 1 1] is_double_div_pow2 [of 1 4] is_double_div_pow2 [of 15 4]
    is_double_div_pow2 [of 375 2]
  by (simp_all add: is_double_def)

lemma written_complete:
  assumes zero: "pow 0 4 = 0"
    and "counter_progress (binary64 (t - startTime)) = 1"
  shows "written pow 100 startTime t = 100"
  using assms by (simp add: written_def easeOutQuart_def binary64_small_values)

lemma parseInt_100: "parseInt (Some ''100'') = Some 100"
  by (simp add: parseInt_def parseInt_string_def is_space_def digit_value_def digits_number_def)

lemma animate_frames_run:
  "animate pow (Some target) st frames =
     map (\<lambda>f. Some (written pow target st f)) (frames_run st frames)"
  by (induction frames) (simp_all add: counter_current_def written_def Let_def)

lemma frames_run_take: "\<exists>k. frames_run st frames = take k frames"
proof (induction frames)
  case Nil
  show ?case by simp
next
  case (Cons f frames)
  then obtain k where k: "frames_run st frames = take k frames" by blast
  show ?case
  proof (cases "counter_progress (binary64 (f - st)) < 1")
    case True
    with k have "frames_run st (f # frames) = take (Suc k) (f # frames)" by simp
    then show ?thesis by blast
  next
    case False
    then have "frames_run st (f # frames) = take (Suc 0) (f # frames)" by simp
    then show ?thesis by blast
  qed
qed

lemma sorted_frames_run: "sorted frames \<Longrightarrow> sorted (frames_run st frames)"
  using frames_run_take [of st frames] by (auto simp: sorted_wrt_take)

lemma pow_rounded_mono: "0 \<le> a \<Longrightarrow> a \<le> b \<Longrightarrow> pow_rounded a 4 \<le> pow_rounded b 4"
  unfolding pow_rounded_def by (intro binary64_mono powr_mono2) simp_all

lemma pow_rounded_0: "pow_rounded 0 4 = 0"
  by (simp add: pow_rounded_def)

text \<open>
  Claim C2. Let the engine's \<open>Math.pow(x, 4)\<close> not decrease as \<open>x\<close> grows from 0 and be 0
  at 0. With \<open>data-target="100"\<close> each run of the callback writes the floor of the
  rounded product of the eased progress and 100, the eased progress being 1 minus the
  fourth power of 1 minus the progress, and the progress the smaller of elapsed/2000
  and 1; over frames whose time stamps do not
  decrease the written numbers do not decrease; a later time stamp never gives a smaller
  number; and a frame with \<open>progress = 1\<close> writes exactly 100. With a correctly rounded
  \<open>Math.pow\<close> the frames at 0, 1000 and 2000 ms write 0, 93 and 100.
\<close>

theorem animateCounter_100:
  assumes "\<forall>a b. 0 \<le> a \<and> a \<le> b \<longrightarrow> pow a 4 \<le> pow b 4" and "pow 0 4 = 0"
    and "sorted frames" and "s \<le> t"
    and "counter_progress (binary64 (z - startTime)) = 1"
  shows "animateCounter pow (Some ''100'') startTime frames =
           map (\<lambda>f. Some (written pow 100 startTime f)) (frames_run startTime frames) \<and>
         written pow 100 startTime t =
           \<lfloor>binary64 (binary64 (1 - pow (binary64 (1 -
              min (binary64 (binary64 (t - startTime) / 2000)) 1)) 4) * 100)\<rfloor> \<and>
         sorted (map the (animateCounter pow (Some ''100'') startTime frames)) \<and>
         written pow 100 startTime s \<le> written pow 100 startTime t \<and>
         written pow 100 startTime z = 100"
proof -
  have formula: "written pow 100 startTime t =
      \<lfloor>binary64 (binary64 (1 - pow (binary64 (1 -
         min (binary64 (binary64 (t - startTime) / 2000)) 1)) 4) * 100)\<rfloor>"
    by (simp add: written_def easeOutQuart_def counter_progress_def duration_def)
  from assms(1) have pow: "\<And>a b. 0 \<le> a \<Longrightarrow> a \<le> b \<Longrightarrow> pow a 4 \<le> pow b 4" by blast
  have mono: "u \<le> v \<Longrightarrow> written pow 100 startTime u \<le> written pow 100 startTime v" for u v
    using pow by (rule written_mono) simp_all
  have eq: "animateCounter pow (Some ''100'') startTime frames =
      map (\<lambda>f. Some (written pow 100 startTime f)) (frames_run startTime frames)"
    unfolding animateCounter_def parseInt_100 by (simp add: animate_frames_run)
  from assms(3) have "sorted (frames_run startTime frames)"
    by (rule sorted_frames_run)
  then have "sorted (map (written pow 100 startTime) (frames_run startTime frames))"
    unfolding sorted_map by (rule sorted_wrt_mono_rel [rotated]) (simp add: mono)
  then have srt: "sorted (map the (animateCounter pow (Some ''100'') startTime frames))"
    unfolding eq by (simp add: comp_def)
  have fin: "written pow 100 startTime z = 100"
    using assms(2,5) by (rule written_complete)
  from eq formula srt mono [OF assms(4)] fin show ?thesis by simp
qed

theorem animateCounter_100_witness:
  "sorted [0, 1000, 2000, 2500 :: real] \<and> (1000 :: real) \<le> 2000 \<and>
   counter_progress (binary64 (2000 - 0)) = 1 \<and>
   animateCounter pow_rounded (Some ''100'') 0 [0, 1000, 2000, 2500] = [Some 0, Some 93, Some 100] \<and>
   sorted (map the (animateCounter pow_rounded (Some ''100'') 0 [0, 1000, 2000, 2500])) \<and>
   written pow_rounded 100 0 1000 = 93 \<and> written pow_rounded 100 0 2000 = 100"
proof -
  have h1: "\<forall>a b. 0 \<le> a \<and> a \<le> b \<longrightarrow> pow_rounded a 4 \<le> pow_rounded b 4"
    using pow_rounded_mono by blast
  have h3: "sorted [0, 1000, 2000, 2500 :: real]" by simp
  have h4: "(1000 :: real) \<le> 2000" by simp
  have h5: "counter_progress (binary64 (2000 - 0)) = 1"
    by (simp add: counter_progress_def duration_def binary64_small_values)
  have w0: "written pow_rounded 100 0 0 = 0"
    by (simp add: written_def easeOutQuart_def counter_progress_def duration_def pow_rounded_def
        binary64_small_values)
  have w1: "written pow_rounded 100 0 1000 = 93"
    by (simp add: written_def easeOutQuart_def counter_progress_def duration_def pow_rounded_def
        binary64_small_values power_divide)
  have f: "frames_run 0 [0, 1000, 2000, 2500] = [0, 1000, 2000]"
    by (simp add: counter_progress_def duration_def binary64_small_values)
  note run = animateCounter_100 [where pow = pow_rounded and frames = "[0, 1000, 2000, 2500]"
      and s = 1000 and t = 2000 and z = 2000 and startTime = 0, OF h1 pow_rounded_0 h3 h4 h5]
  from run have e: "animateCounter pow_rounded (Some ''100'') 0 [0, 1000, 2000, 2500] =
      map (\<lambda>f. Some (written pow_rounded 100 0 f)) (frames_run 0 [0, 1000, 2000, 2500])"
    by (rule conjunct1)
  from run have r: "sorted (map the (animateCounter pow_rounded (Some ''100'') 0
      [0, 1000, 2000, 2500])) \<and> written pow_rounded 100 0 2000 = 100"
    by blast
  from e r h3 h5 w0 w1 show ?thesis
    unfolding f by simp
qed


subsection \<open>Facts about the portfolio\<close>

declare run_timers.simps [simp del]

lemma getFilteredItems_cong:
  assumes "currentFilter q = currentFilter p"
    and "map dataset_category (items q) = map dataset_category (items p)"
  shows "getFilteredItems q = getFilteredItems p"
proof -
  from assms(2) have len: "length (items q) = length (items p)"
    by (rule map_eq_imp_length_eq)
  have "categories (items q ! i) = categories (items p ! i)" if "i < length (items p)" for i
  proof -
    from that len have "map dataset_category (items q) ! i = dataset_category (items q ! i)"
      and "map dataset_category (items p) ! i = dataset_category (items p ! i)"
      by simp_all
    with assms(2) show ?thesis by (simp add: categories_def)
  qed
  then show ?thesis
    unfolding getFilteredItems_def using assms(1) len
    by (auto intro: filter_cong)
qed

lemma getFilteredItems_bound: "i \<in> set (getFilteredItems p) \<Longrightarrow> i < length (items p)"
  by (auto simp: getFilteredItems_def split: if_splits)

lemma distinct_getFilteredItems: "distinct (getFilteredItems p)"
  by (simp add: getFilteredItems_def)

lemma length_getFilteredItems:
  assumes "currentFilter p \<noteq> ''all''"
  shows "length (getFilteredItems p) = length (filter (carries (currentFilter p)) (items p))"
proof -
  have "filter (carries (currentFilter p)) (map (\<lambda>i. items p ! i) [0..<length (items p)]) =
      map (\<lambda>i. items p ! i)
        (filter (\<lambda>i. carries (currentFilter p) (items p ! i)) [0..<length (items p)])"
    by (simp add: filter_map comp_def)
  then have "length (filter (carries (currentFilter p)) (items p)) =
      length (filter (\<lambda>i. carries (currentFilter p) (items p ! i)) [0..<length (items p)])"
    by (simp add: map_nth)
  with assms show ?thesis
    by (simp add: getFilteredItems_def carries_def)
qed

lemma earliest_mem: "earliest ts = Some t \<Longrightarrow> t \<in> set ts"
  by (induction ts arbitrary: t) (auto split: option.splits if_splits)

lemma earliest_None: "earliest ts = None \<Longrightarrow> ts = []"
  by (cases ts) (auto split: option.splits if_splits)

lemma revealing_iff:
  "revealing q \<longleftrightarrow>
     (\<forall>t \<in> set (timers q). pending_ok (getFilteredItems q) (itemsPerPage q * currentPage q) t) \<and>
     (\<forall>i < length (items q). hidden (items q ! i) \<or>
          i \<in> set (take (itemsPerPage q * currentPage q) (getFilteredItems q))) \<and>
     (\<forall>i \<in> set (take (itemsPerPage q * currentPage q) (getFilteredItems q)).
          \<not> hidden (items q ! i) \<or>
          (\<exists>t \<in> set (timers q). snd t = ShowItem i \<or> snd t = ShowFiltered (getFilteredItems q)))"
  by (auto simp: revealing_def Let_def list_all_iff list_ex_iff)

lemma getFilteredItems_update_item:
  "getFilteredItems (q\<lparr>items := (items q)[i := (items q ! i)\<lparr>hidden := h, animate_in := a\<rparr>]\<rparr>) =
   getFilteredItems q"
proof (rule getFilteredItems_cong)
  show "currentFilter (q\<lparr>items := (items q)[i := (items q ! i)\<lparr>hidden := h, animate_in := a\<rparr>]\<rparr>) =
      currentFilter q" by simp
  show "map dataset_category
        (items (q\<lparr>items := (items q)[i := (items q ! i)\<lparr>hidden := h, animate_in := a\<rparr>]\<rparr>)) =
      map dataset_category (items q)"
  proof (rule nth_equalityI)
    fix j assume "j < length (map dataset_category
        (items (q\<lparr>items := (items q)[i := (items q ! i)\<lparr>hidden := h, animate_in := a\<rparr>]\<rparr>)))"
    then have "j < length (items q)" by simp
    then show "map dataset_category
        (items (q\<lparr>items := (items q)[i := (items q ! i)\<lparr>hidden := h, animate_in := a\<rparr>]\<rparr>)) ! j =
      map dataset_category (items q) ! j"
      by (cases "j = i") simp_all
  qed simp
qed

lemma getFilteredItems_fields:
  assumes "items r = items q" and "currentFilter r = currentFilter q"
  shows "getFilteredItems r = getFilteredItems q"
  by (rule getFilteredItems_cong) (simp_all add: assms)

lemma fire_ShowItem:
  "fire (d, ShowItem i) q =
     q\<lparr>timers := remove1 (d, ShowItem i) (timers q), clock := max (clock q) d,
       items := (items q)[i := (items q ! i)\<lparr>hidden := False, animate_in := True\<rparr>]\<rparr>"
  by (simp add: fire_def run_action_def)

lemma fire_ShowFiltered:
  "fire (d, ShowFiltered fl) q =
     q\<lparr>timers := remove1 (d, ShowFiltered fl) (timers q) @
          map (\<lambda>index. (max (clock q) d + index * 100,
                         ShowItem (take (itemsPerPage q * currentPage q) fl ! index)))
            [0..<length (take (itemsPerPage q * currentPage q) fl)],
       clock := max (clock q) d\<rparr>"
  by (simp add: fire_def run_action_def stagger_def slice_def)

lemma fire_fields [simp]:
  "currentFilter (fire t q) = currentFilter q"
  "itemsPerPage (fire t q) = itemsPerPage q"
  "currentPage (fire t q) = currentPage q"
  "length (items (fire t q)) = length (items q)"
  by (cases t; cases "snd t"; simp add: fire_def run_action_def stagger_def)+

lemma getFilteredItems_fire [simp]: "getFilteredItems (fire t q) = getFilteredItems q"
proof (cases t)
  case (Pair d a)
  show ?thesis
  proof (cases a)
    case (ShowFiltered fl)
    with Pair show ?thesis
      unfolding Pair ShowFiltered fire_ShowFiltered
      by (intro getFilteredItems_fields) simp_all
  next
    case (ShowItem i)
    have "getFilteredItems (fire (d, ShowItem i) q) =
        getFilteredItems (q\<lparr>items := (items q)[i := (items q ! i)\<lparr>hidden := False, animate_in := True\<rparr>]\<rparr>)"
      unfolding fire_ShowItem by (intro getFilteredItems_fields) simp_all
    with Pair ShowItem show ?thesis
      by (simp add: getFilteredItems_update_item)
  qed
qed

lemma revealing_fire:
  assumes r: "revealing q" and t: "t \<in> set (timers q)"
  shows "revealing (fire t q)"
proof -
  let ?F = "getFilteredItems q"
  let ?m = "itemsPerPage q * currentPage q"
  from r have a: "\<And>u. u \<in> set (timers q) \<Longrightarrow> pending_ok ?F ?m u"
    and b: "\<And>i. i < length (items q) \<Longrightarrow> hidden (items q ! i) \<or> i \<in> set (take ?m ?F)"
    and c: "\<And>i. i \<in> set (take ?m ?F) \<Longrightarrow> \<not> hidden (items q ! i) \<or>
          (\<exists>u \<in> set (timers q). snd u = ShowItem i \<or> snd u = ShowFiltered ?F)"
    unfolding revealing_iff by blast+
  obtain d act where td: "t = (d, act)" by (cases t)
  show ?thesis
  proof (cases act)
    case (ShowItem i)
    from a [OF t] have i: "i \<in> set (take ?m ?F)"
      by (simp add: td ShowItem pending_ok_def)
    then have "i \<in> set ?F" by (rule in_set_takeD)
    then have iN: "i < length (items q)" by (rule getFilteredItems_bound)
    let ?its = "(items q)[i := (items q ! i)\<lparr>hidden := False, animate_in := True\<rparr>]"
    have its: "items (fire t q) = ?its" and tm: "timers (fire t q) = remove1 t (timers q)"
      by (simp_all add: td ShowItem fire_ShowItem)
    have a': "pending_ok ?F ?m u" if "u \<in> set (remove1 t (timers q))" for u
      using that a by (meson notin_set_remove1)
    have b': "hidden (?its ! j) \<or> j \<in> set (take ?m ?F)" if "j < length ?its" for j
      using that b [of j] i by (cases "j = i") simp_all
    have c': "\<not> hidden (?its ! j) \<or>
        (\<exists>u \<in> set (remove1 t (timers q)). snd u = ShowItem j \<or> snd u = ShowFiltered ?F)"
      if j: "j \<in> set (take ?m ?F)" for j
    proof (cases "j = i")
      case True
      with iN show ?thesis by simp
    next
      case False
      from c [OF j] show ?thesis
      proof
        assume "\<not> hidden (items q ! j)"
        with False show ?thesis by simp
      next
        assume "\<exists>u \<in> set (timers q). snd u = ShowItem j \<or> snd u = ShowFiltered ?F"
        then obtain u where u: "u \<in> set (timers q)"
          and su: "snd u = ShowItem j \<or> snd u = ShowFiltered ?F" by blast
        from su False have "u \<noteq> t" by (auto simp: td ShowItem)
        with u have "u \<in> set (remove1 t (timers q))" by simp
        with su show ?thesis by blast
      qed
    qed
    show ?thesis
      unfolding revealing_iff getFilteredItems_fire fire_fields its tm
      using a' b' c' by blast
  next
    case (ShowFiltered fl)
    from a [OF t] have fl: "fl = ?F"
      by (simp add: td ShowFiltered pending_ok_def)
    define xs where "xs = take ?m ?F"
    let ?new = "map (\<lambda>index. (max (clock q) d + index * 100, ShowItem (xs ! index)))
        [0..<length xs]"
    have its: "items (fire t q) = items q"
      and tm: "timers (fire t q) = remove1 t (timers q) @ ?new"
      by (simp_all add: td ShowFiltered fl fire_ShowFiltered xs_def)
    have new: "snd ` set ?new = ShowItem ` set (take ?m ?F)"
    proof -
      have "snd ` set ?new = ShowItem ` (nth xs ` {0..<length xs})"
        by (simp add: image_image)
      also have "nth xs ` {0..<length xs} = set xs"
        using nth_image [of "length xs" xs] by simp
      finally show ?thesis by (simp add: xs_def)
    qed
    have a': "pending_ok ?F ?m u" if "u \<in> set (remove1 t (timers q) @ ?new)" for u
    proof -
      from that consider "u \<in> set (remove1 t (timers q))" | "u \<in> set ?new" by auto
      then show ?thesis
      proof cases
        case 1
        with a show ?thesis by (meson notin_set_remove1)
      next
        case 2
        then have "snd u \<in> ShowItem ` set (take ?m ?F)" unfolding new [symmetric] by (rule imageI)
        then show ?thesis by (auto simp: pending_ok_def)
      qed
    qed
    have c': "\<not> hidden (items q ! j) \<or>
        (\<exists>u \<in> set (remove1 t (timers q) @ ?new). snd u = ShowItem j \<or> snd u = ShowFiltered ?F)"
      if j: "j \<in> set (take ?m ?F)" for j
    proof -
      from j have "ShowItem j \<in> snd ` set ?new" unfolding new by (rule imageI)
      then obtain u where "ShowItem j = snd u" and "u \<in> set ?new" by (rule imageE)
      then show ?thesis by auto
    qed
    show ?thesis
      unfolding revealing_iff getFilteredItems_fire fire_fields its tm
      using a' b c' by blast
  qed
qed

lemma updateLoadMoreButton_fields [simp]:
  "items (updateLoadMoreButton q) = items q"
  "timers (updateLoadMoreButton q) = timers q"
  "currentFilter (updateLoadMoreButton q) = currentFilter q"
  "itemsPerPage (updateLoadMoreButton q) = itemsPerPage q"
  "currentPage (updateLoadMoreButton q) = currentPage q"
  by (simp_all add: updateLoadMoreButton_def Let_def split: option.splits)

lemma revealing_fields:
  assumes "items r = items q" and "timers r = timers q" and "currentFilter r = currentFilter q"
    and "itemsPerPage r = itemsPerPage q" and "currentPage r = currentPage q"
  shows "revealing r = revealing q"
  unfolding revealing_iff assms getFilteredItems_fields [OF assms(1,3)] ..

lemma revealing_updateLoadMoreButton [simp]:
  "revealing (updateLoadMoreButton q) = revealing q"
  by (rule revealing_fields) simp_all

lemma revealing_loadMore:
  assumes r: "revealing q"
  shows "revealing (loadMore q)"
proof -
  let ?F = "getFilteredItems q"
  let ?m = "itemsPerPage q * currentPage q"
  let ?m' = "itemsPerPage q * (currentPage q + 1)"
  define xs where "xs = take (itemsPerPage q) (drop ?m ?F)"
  let ?new = "map (\<lambda>index. (clock q + index * 100, ShowItem (xs ! index))) [0..<length xs]"
  let ?q' = "q\<lparr>currentPage := currentPage q + 1, timers := timers q @ ?new\<rparr>"
  from r have a: "\<And>u. u \<in> set (timers q) \<Longrightarrow> pending_ok ?F ?m u"
    and b: "\<And>i. i < length (items q) \<Longrightarrow> hidden (items q ! i) \<or> i \<in> set (take ?m ?F)"
    and c: "\<And>i. i \<in> set (take ?m ?F) \<Longrightarrow> \<not> hidden (items q ! i) \<or>
          (\<exists>u \<in> set (timers q). snd u = ShowItem i \<or> snd u = ShowFiltered ?F)"
    unfolding revealing_iff by blast+
  have F1: "getFilteredItems (q\<lparr>currentPage := n\<rparr>) = ?F" for n
    by (rule getFilteredItems_fields) simp_all
  have "?m' = ?m + itemsPerPage q" by simp
  then have "take ?m' ?F = take ?m ?F @ take (itemsPerPage q) (drop ?m ?F)"
    by (simp only: take_add)
  then have tk: "set (take ?m' ?F) = set (take ?m ?F) \<union> set xs"
    by (simp add: xs_def)
  have lm: "loadMore q = updateLoadMoreButton ?q'"
    by (simp add: loadMore_def Let_def stagger_def slice_def F1 xs_def mult.commute)
  have F': "getFilteredItems ?q' = ?F"
    by (rule getFilteredItems_fields) simp_all
  have new: "snd ` set ?new = ShowItem ` set xs"
  proof -
    have "snd ` set ?new = ShowItem ` (nth xs ` {0..<length xs})"
      by (simp add: image_image)
    also have "nth xs ` {0..<length xs} = set xs"
      using nth_image [of "length xs" xs] by simp
    finally show ?thesis .
  qed
  have a': "pending_ok ?F ?m' u" if "u \<in> set (timers q @ ?new)" for u
  proof -
    from that consider "u \<in> set (timers q)" | "u \<in> set ?new" by auto
    then show ?thesis
    proof cases
      case 1
      from a [OF 1] show ?thesis
        unfolding pending_ok_def tk by (auto split: timer_action.splits)
    next
      case 2
      then have "snd u \<in> ShowItem ` set xs" unfolding new [symmetric] by (rule imageI)
      then show ?thesis unfolding pending_ok_def tk by auto
    qed
  qed
  have b': "hidden (items q ! i) \<or> i \<in> set (take ?m' ?F)" if "i < length (items q)" for i
    using b [OF that] unfolding tk by blast
  have c': "\<not> hidden (items q ! i) \<or>
      (\<exists>u \<in> set (timers q @ ?new). snd u = ShowItem i \<or> snd u = ShowFiltered ?F)"
    if i: "i \<in> set (take ?m' ?F)" for i
  proof -
    from i consider "i \<in> set (take ?m ?F)" | "i \<in> set xs" unfolding tk by blast
    then show ?thesis
    proof cases
      case 1
      from c [OF 1] show ?thesis by auto
    next
      case 2
      then have "ShowItem i \<in> snd ` set ?new" unfolding new by (rule imageI)
      then obtain u where "ShowItem i = snd u" and "u \<in> set ?new" by (rule imageE)
      then show ?thesis by auto
    qed
  qed
  have "revealing ?q'"
    unfolding revealing_iff F'
    using a' b' c' by simp
  then show ?thesis by (simp add: lm)
qed

lemma currentPage_loadMore [simp]: "currentPage (loadMore q) = currentPage q + 1"
  by (simp add: loadMore_def Let_def stagger_def)

lemma loadMore_fields [simp]:
  "currentFilter (loadMore q) = currentFilter q"
  "itemsPerPage (loadMore q) = itemsPerPage q"
  "items (loadMore q) = items q"
  by (simp_all add: loadMore_def Let_def stagger_def)

lemma run_timers_step:
  "run_timers deadline p =
     (case earliest (timers p) of
        None \<Rightarrow> p
      | Some t \<Rightarrow>
          (if (case deadline of None \<Rightarrow> True | Some d \<Rightarrow> fst t \<le> d)
           then run_timers deadline (fire t p)
           else p))"
  by (rule run_timers.simps)

lemma run_timers_keeps:
  "revealing p \<Longrightarrow> revealing (run_timers deadline p)"
  "currentFilter (run_timers deadline p) = currentFilter p"
  "itemsPerPage (run_timers deadline p) = itemsPerPage p"
  "currentPage (run_timers deadline p) = currentPage p"
  "getFilteredItems (run_timers deadline p) = getFilteredItems p"
proof (induction deadline p rule: run_timers.induct)
  case (1 deadline p)
  {
    case 1
    show ?case
    proof (cases "earliest (timers p)")
      case None
      with 1 show ?thesis by (subst run_timers_step) simp
    next
      case (Some t)
      then have "t \<in> set (timers p)" by (rule earliest_mem)
      with 1 have "revealing (fire t p)" by (intro revealing_fire)
      with "1.IH"(1) [OF Some] Some 1 show ?thesis
        by (subst run_timers_step) simp
    qed
  next
    case 2
    show ?case
      using "1.IH"(2) by (subst run_timers_step) (simp split: option.splits)
  next
    case 3
    show ?case
      using "1.IH"(3) by (subst run_timers_step) (simp split: option.splits)
  next
    case 4
    show ?case
      using "1.IH"(4) by (subst run_timers_step) (simp split: option.splits)
  next
    case 5
    show ?case
      using "1.IH"(5) by (subst run_timers_step) (simp split: option.splits)
  }
qed

lemma timers_settle: "timers (settle p) = []"
proof -
  have "timers (run_timers None p) = []"
  proof (induction "None :: nat option" p rule: run_timers.induct)
    case (1 p)
    show ?case
    proof (cases "earliest (timers p)")
      case None
      then have "timers p = []" by (rule earliest_None)
      with None show ?thesis by (subst run_timers_step) simp
    next
      case (Some t)
      with "1.hyps" [OF Some] show ?thesis by (subst run_timers_step) simp
    qed
  qed
  then show ?thesis by (simp add: settle_def)
qed

lemma revealing_count:
  assumes r: "revealing q" and t: "timers q = []"
  shows "length (visible q) = min (itemsPerPage q * currentPage q) (length (getFilteredItems q))"
proof -
  let ?F = "getFilteredItems q"
  let ?T = "take (itemsPerPage q * currentPage q) ?F"
  from r t have b: "\<And>i. i < length (items q) \<Longrightarrow> hidden (items q ! i) \<or> i \<in> set ?T"
    and c: "\<And>i. i \<in> set ?T \<Longrightarrow> \<not> hidden (items q ! i)"
    unfolding revealing_iff by auto
  have bound: "i < length (items q)" if "i \<in> set ?T" for i
    using that by (intro getFilteredItems_bound) (rule in_set_takeD)
  have "length (visible q) = card {i. i < length (items q) \<and> \<not> hidden (items q ! i)}"
    by (simp add: visible_def length_filter_conv_card)
  also have "{i. i < length (items q) \<and> \<not> hidden (items q ! i)} = set ?T"
    using b c bound by blast
  also have "card (set ?T) = length ?T"
    by (intro distinct_card distinct_take distinct_getFilteredItems)
  finally show ?thesis by simp
qed

lemma revealing_filterItems:
  assumes "timers p = []"
  shows "revealing (filterItems p)"
proof -
  let ?hid = "map (\<lambda>item. item\<lparr>hidden := True\<rparr>) (items p)"
  let ?F = "getFilteredItems p"
  have fi: "filterItems p = p\<lparr>items := ?hid, timers := [(clock p + 300, ShowFiltered ?F)]\<rparr>"
    by (simp add: filterItems_def Let_def setTimeout_def assms)
  have F: "getFilteredItems (p\<lparr>items := ?hid, timers := [(clock p + 300, ShowFiltered ?F)]\<rparr>) = ?F"
    by (rule getFilteredItems_cong) (simp_all add: comp_def)
  show ?thesis
    unfolding fi revealing_iff F by (simp add: pending_ok_def)
qed

lemma filterItems_fields [simp]:
  "currentFilter (filterItems p) = currentFilter p"
  "itemsPerPage (filterItems p) = itemsPerPage p"
  "currentPage (filterItems p) = currentPage p"
  by (simp_all add: filterItems_def Let_def setTimeout_def)

lemma getFilteredItems_filterItems [simp]: "getFilteredItems (filterItems p) = getFilteredItems p"
  by (rule getFilteredItems_cong) (simp_all add: filterItems_def Let_def setTimeout_def comp_def)

lemma getFilteredItems_updateLoadMoreButton [simp]:
  "getFilteredItems (updateLoadMoreButton p) = getFilteredItems p"
  by (rule getFilteredItems_fields) simp_all

lemma getFilteredItems_loadMore [simp]: "getFilteredItems (loadMore p) = getFilteredItems p"
  by (rule getFilteredItems_fields) simp_all

lemma elapse_keeps:
  "revealing p \<Longrightarrow> revealing (elapse d p)"
  "currentFilter (elapse d p) = currentFilter p"
  "itemsPerPage (elapse d p) = itemsPerPage p"
  "currentPage (elapse d p) = currentPage p"
  "getFilteredItems (elapse d p) = getFilteredItems p"
proof -
  let ?r = "run_timers (Some (clock p + d)) p"
  have e: "elapse d p = ?r\<lparr>clock := clock p + d\<rparr>" by (simp add: elapse_def)
  have rv: "revealing (?r\<lparr>clock := clock p + d\<rparr>) = revealing ?r"
    by (rule revealing_fields) simp_all
  show "revealing p \<Longrightarrow> revealing (elapse d p)"
    unfolding e rv by (rule run_timers_keeps)
  show "currentFilter (elapse d p) = currentFilter p"
    "itemsPerPage (elapse d p) = itemsPerPage p"
    "currentPage (elapse d p) = currentPage p"
    unfolding e by (simp_all add: run_timers_keeps)
  have "getFilteredItems (?r\<lparr>clock := clock p + d\<rparr>) = getFilteredItems ?r"
    by (rule getFilteredItems_fields) simp_all
  then show "getFilteredItems (elapse d p) = getFilteredItems p"
    unfolding e by (simp add: run_timers_keeps)
qed

lemma portfolio_run_keeps:
  assumes "\<not> list_ex is_filter_click evs"
  shows "revealing q \<Longrightarrow> revealing (portfolio_run q evs)"
    and "itemsPerPage (portfolio_run q evs) = itemsPerPage q"
    and "currentPage (portfolio_run q evs) = currentPage q + length (filter is_load_more evs)"
    and "getFilteredItems (portfolio_run q evs) = getFilteredItems q"
  using assms
proof (induction evs arbitrary: q)
  case Nil
  {
    case 1 then show ?case by (simp add: portfolio_run_def)
  next
    case 2 show ?case by (simp add: portfolio_run_def)
  next
    case 3 show ?case by (simp add: portfolio_run_def)
  next
    case 4 show ?case by (simp add: portfolio_run_def)
  }
next
  case (Cons ev evs)
  have run: "portfolio_run q (ev # evs) = portfolio_run (portfolio_step q ev) evs" for q
    by (simp add: portfolio_run_def)
  {
    case 1
    from 1(2) have nf: "\<not> is_filter_click ev" and rest: "\<not> list_ex is_filter_click evs" by simp_all
    from nf 1(1) have "revealing (portfolio_step q ev)"
      by (cases ev) (simp_all add: portfolio_step_def revealing_loadMore elapse_keeps)
    with rest show ?case unfolding run by (blast intro: Cons.IH(1))
  next
    case 2
    then have nf: "\<not> is_filter_click ev" and rest: "\<not> list_ex is_filter_click evs" by simp_all
    from nf have "itemsPerPage (portfolio_step q ev) = itemsPerPage q"
      by (cases ev) (simp_all add: portfolio_step_def elapse_keeps)
    with Cons.IH(2) [OF rest] show ?case unfolding run by simp
  next
    case 3
    then have nf: "\<not> is_filter_click ev" and rest: "\<not> list_ex is_filter_click evs" by simp_all
    from nf have "currentPage (portfolio_step q ev) =
        currentPage q + (if is_load_more ev then 1 else 0)"
      by (cases ev) (simp_all add: portfolio_step_def elapse_keeps)
    with Cons.IH(3) [OF rest, of "portfolio_step q ev"] show ?case unfolding run by simp
  next
    case 4
    then have nf: "\<not> is_filter_click ev" and rest: "\<not> list_ex is_filter_click evs" by simp_all
    from nf have "getFilteredItems (portfolio_step q ev) = getFilteredItems q"
      by (cases ev) (simp_all add: portfolio_step_def elapse_keeps)
    with Cons.IH(4) [OF rest, of "portfolio_step q ev"] show ?case unfolding run by simp
  }
qed

lemma settle_count:
  assumes "revealing q"
  shows "length (visible (settle q)) =
         min (itemsPerPage q * currentPage q) (length (getFilteredItems q))"
proof -
  from assms have "revealing (settle q)"
    unfolding settle_def by (rule run_timers_keeps)
  from revealing_count [OF this timers_settle] show ?thesis
    by (simp add: settle_def run_timers_keeps)
qed

text \<open>
  Claim C5, as stated, at a concrete run. In the gallery of two \<open>web\<close> and two \<open>design\<close>
  items the visitor clicks the filter \<open>web\<close> and, 100 ms later, the filter \<open>design\<close>.
  The 300 ms timer of the first click is still pending and is never cancelled: it fires
  after the second click has hidden everything and reveals the \<open>web\<close> items. When all
  timers have fired, four items are visible under the filter \<open>design\<close>, which two items
  carry, with six items per page.
\<close>

theorem portfolio_stale_timer_reveals:
  "timers gallery = [] \<and> ''design'' \<noteq> currentFilter (elapse 100 (handleFilterClick ''web'' gallery)) \<and>
   length (filter (carries ''design'') (items (elapse 100 (handleFilterClick ''web'' gallery)))) = 2 \<and>
   itemsPerPage (elapse 100 (handleFilterClick ''web'' gallery)) = 6 \<and>
   length (visible (settle (handleFilterClick ''design''
      (elapse 100 (handleFilterClick ''web'' gallery))))) = 4"
  by (simp add: gallery_def settle_def elapse_def handleFilterClick_def filterItems_def run_timers.simps
      updateLoadMoreButton_def getFilteredItems_def setTimeout_def fire_def run_action_def
      stagger_def slice_def categories_def array_includes_def carries_def visible_def Let_def)

text \<open>
  Claim C5, amended. Let no timer be pending when the filter button of a category other
  than \<open>all\<close> and other than the current filter is clicked, and let \<open>k\<close> items carry the
  category. Once all timers have fired, \<open>min k itemsPerPage\<close> items are visible. If the
  click is followed by clicks on the load-more button and by waiting, in any order but
  without another filter click, then once all timers have fired
  \<open>min k (itemsPerPage * page)\<close> items are visible, where \<open>page - 1\<close> is the number of
  load-more clicks.
\<close>

theorem portfolio_filter_visible_count:
  assumes "timers p = []" and "category \<noteq> ''all''" and "category \<noteq> currentFilter p"
    and "\<not> list_ex is_filter_click evs"
  shows "length (visible (settle (handleFilterClick category p))) =
           min (length (filter (carries category) (items p))) (itemsPerPage p) \<and>
         length (visible (settle (portfolio_run (handleFilterClick category p) evs))) =
           min (length (filter (carries category) (items p)))
             (itemsPerPage p * (1 + length (filter is_load_more evs)))"
proof -
  let ?p0 = "p\<lparr>currentFilter := category, currentPage := 1\<rparr>"
  let ?q = "handleFilterClick category p"
  from assms(3) have q: "?q = updateLoadMoreButton (filterItems ?p0)"
    by (simp add: handleFilterClick_def)
  from assms(1) have "revealing (filterItems ?p0)"
    by (intro revealing_filterItems) simp
  then have rq: "revealing ?q" by (simp add: q)
  have ipp: "itemsPerPage ?q = itemsPerPage p" and pg: "currentPage ?q = 1"
    by (simp_all add: q)
  from assms(2) have len: "length (getFilteredItems ?q) = length (filter (carries category) (items p))"
    using length_getFilteredItems [of ?p0] by (simp add: q)
  from settle_count [OF rq] have a: "length (visible (settle ?q)) =
      min (length (filter (carries category) (items p))) (itemsPerPage p)"
    by (simp add: ipp pg len min.commute)
  let ?r = "portfolio_run ?q evs"
  from portfolio_run_keeps [OF assms(4), of ?q] rq
  have rr: "revealing ?r" and ir: "itemsPerPage ?r = itemsPerPage p"
    and pr: "currentPage ?r = 1 + length (filter is_load_more evs)"
    and fr: "getFilteredItems ?r = getFilteredItems ?q"
    by (simp_all add: ipp pg)
  from settle_count [OF rr] have b: "length (visible (settle ?r)) =
      min (length (filter (carries category) (items p)))
        (itemsPerPage p * (1 + length (filter is_load_more evs)))"
    by (simp only: ir pr fr len min.commute)
  from a b show ?thesis by simp
qed

theorem portfolio_filter_visible_count_witness:
  "timers (gallery\<lparr>itemsPerPage := 1\<rparr>) = [] \<and>
   length (visible (settle (handleFilterClick ''web'' (gallery\<lparr>itemsPerPage := 1\<rparr>)))) = 1 \<and>
   length (visible (settle (portfolio_run (handleFilterClick ''web'' (gallery\<lparr>itemsPerPage := 1\<rparr>))
      [Elapse 100, LoadMoreClick, Elapse 350]))) = 2"
proof -
  let ?g = "gallery\<lparr>itemsPerPage := 1\<rparr>"
  have h1: "timers ?g = []" by (simp add: gallery_def)
  have h2: "''web'' \<noteq> ''all''" by simp
  have h3: "''web'' \<noteq> currentFilter ?g" by (simp add: gallery_def)
  have h4: "\<not> list_ex is_filter_click [Elapse 100, LoadMoreClick, Elapse 350]" by simp
  have k: "length (filter (carries ''web'') (items ?g)) = 2"
    by (simp add: gallery_def carries_def categories_def array_includes_def)
  from portfolio_filter_visible_count [OF h1 h2 h3 h4] h1 show ?thesis
    unfolding k by simp
qed


subsection \<open>Facts about the carousel\<close>

lemma length_cards_updateCarousel [simp]:
  "length (cards (updateCarousel t)) = length (cards t)"
  by (simp add: updateCarousel_def)

lemma currentIndex_updateCarousel [simp]:
  "currentIndex (updateCarousel t) = currentIndex t"
  by (simp add: updateCarousel_def)

lemma length_cards_next_card [simp]: "length (cards (next_card t)) = length (cards t)"
  by (simp add: next_card_def)

lemma length_cards_prev [simp]: "length (cards (prev t)) = length (cards t)"
  by (simp add: prev_def)

lemma currentIndex_next_card:
  "currentIndex (next_card t) =
     (if currentIndex t = int (length (cards t)) - 1 then 0 else currentIndex t + 1)"
  by (simp add: next_card_def)

lemma currentIndex_prev:
  "currentIndex (prev t) =
     (if currentIndex t = 0 then int (length (cards t)) - 1 else currentIndex t - 1)"
  by (simp add: prev_def)

lemma next_card_mod:
  assumes "index_in_range t"
  shows "currentIndex (next_card t) = (currentIndex t + 1) mod int (length (cards t))"
proof (cases "currentIndex t = int (length (cards t)) - 1")
  case True
  then show ?thesis by (simp add: currentIndex_next_card)
next
  case False
  with assms have "currentIndex t + 1 < int (length (cards t))" "0 \<le> currentIndex t + 1"
    by (simp_all add: index_in_range_def)
  with False show ?thesis by (simp add: currentIndex_next_card)
qed

lemma length_cards_funpow_next [simp]:
  "length (cards ((next_card ^^ k) t)) = length (cards t)"
  by (induction k) simp_all

lemma funpow_next_card_mod:
  assumes "index_in_range t"
  shows "index_in_range ((next_card ^^ k) t) \<and>
         currentIndex ((next_card ^^ k) t) = (currentIndex t + int k) mod int (length (cards t))"
proof (induction k)
  case 0
  from assms show ?case by (simp add: index_in_range_def)
next
  case (Suc k)
  let ?u = "(next_card ^^ k) t"
  from Suc have r: "index_in_range ?u"
    and i: "currentIndex ?u = (currentIndex t + int k) mod int (length (cards t))"
    by simp_all
  from assms have pos: "0 < int (length (cards t))" by (auto simp: index_in_range_def)
  have "currentIndex (next_card ?u) = (currentIndex ?u + 1) mod int (length (cards t))"
    using next_card_mod [OF r] by simp
  also have "\<dots> = (currentIndex t + int (Suc k)) mod int (length (cards t))"
    by (simp add: i mod_simps ac_simps)
  finally have e: "currentIndex (next_card ?u) = (currentIndex t + int (Suc k)) mod int (length (cards t))" .
  with pos have "index_in_range (next_card ?u)"
    by (simp add: index_in_range_def)
  with e show ?case by simp
qed

text \<open>
  Claim C3. With at least one card and the index in range, calling \<open>next\<close> as many times
  as there are cards brings the index back to where it started, and \<open>prev\<close> undoes
  \<open>next\<close> and \<open>next\<close> undoes \<open>prev\<close>.
\<close>

theorem carousel_next_cycle_prev_inverse:
  assumes "0 \<le> currentIndex t" and "currentIndex t < int (length (cards t))"
  shows "currentIndex ((next_card ^^ length (cards t)) t) = currentIndex t \<and>
         currentIndex (prev (next_card t)) = currentIndex t \<and>
         currentIndex (next_card (prev t)) = currentIndex t"
proof -
  from assms have r: "index_in_range t" by (simp add: index_in_range_def)
  from funpow_next_card_mod [OF r, of "length (cards t)"] assms
  have cycle: "currentIndex ((next_card ^^ length (cards t)) t) = currentIndex t"
    by simp
  from assms have pn: "currentIndex (prev (next_card t)) = currentIndex t"
    by (simp add: currentIndex_prev currentIndex_next_card)
  from assms have np: "currentIndex (next_card (prev t)) = currentIndex t"
    by (simp add: currentIndex_prev currentIndex_next_card)
  from cycle pn np show ?thesis by simp
qed

theorem carousel_next_cycle_prev_inverse_witness:
  "currentIndex ((next_card ^^ 3)
       \<lparr>cards = [False, True, False], indicators = [False, True, False], currentIndex = 1\<rparr>) = 1 \<and>
   currentIndex (prev (next_card
       \<lparr>cards = [False, True, False], indicators = [False, True, False], currentIndex = 1\<rparr>)) = 1 \<and>
   currentIndex (next_card (prev
       \<lparr>cards = [False, True, False], indicators = [False, True, False], currentIndex = 1\<rparr>)) = 1"
  using carousel_next_cycle_prev_inverse
      [of "\<lparr>cards = [False, True, False], indicators = [False, True, False], currentIndex = 1\<rparr>"]
  by (simp add: numeral_3_eq_3)

text \<open>
  Claim C4, as stated, at a concrete state: three cards, four indicators. The click
  listener of the fourth indicator calls \<open>goTo(3)\<close>, and the index leaves the range.
\<close>

theorem carousel_goTo_leaves_range:
  "index_in_range
     \<lparr>cards = [True, False, False], indicators = [True, False, False, False],
      currentIndex = 0\<rparr> \<and>
   \<not> index_in_range
     (indicator_click 3
        \<lparr>cards = [True, False, False], indicators = [True, False, False, False],
         currentIndex = 0\<rparr>)"
  by (simp add: index_in_range_def indicator_click_def goTo_def)

text \<open>
  Claim C4, amended. From an index in range, \<open>next\<close> and \<open>prev\<close> leave the index in range.
  \<open>goTo(i)\<close> stores \<open>i\<close> unchecked, so the index is in range afterwards exactly when
  \<open>0 \<le> i < \<close> card count; a click on any indicator keeps the index in range when there
  are no more indicators than cards.
\<close>

theorem carousel_ops_index_in_range:
  assumes "index_in_range t"
  shows "index_in_range (next_card t) \<and> index_in_range (prev t) \<and>
         (index_in_range (goTo i t) = (0 \<le> i \<and> i < int (length (cards t)))) \<and>
         (length (indicators t) \<le> length (cards t) \<longrightarrow> index_in_range (indicator_click k t))"
proof -
  from assms have n: "index_in_range (next_card t)"
    by (auto simp: index_in_range_def currentIndex_next_card)
  from assms have p: "index_in_range (prev t)"
    by (auto simp: index_in_range_def currentIndex_prev)
  have g: "index_in_range (goTo i t) = (0 \<le> i \<and> i < int (length (cards t)))"
    by (simp add: index_in_range_def goTo_def)
  have c: "index_in_range (indicator_click k t)" if "length (indicators t) \<le> length (cards t)"
    using that assms by (auto simp: indicator_click_def index_in_range_def goTo_def)
  from n p g c show ?thesis by blast
qed

theorem carousel_ops_index_in_range_witness:
  "index_in_range \<lparr>cards = [False, False, True], indicators = [False, False, True], currentIndex = 2\<rparr> \<and>
   index_in_range (next_card \<lparr>cards = [False, False, True], indicators = [False, False, True], currentIndex = 2\<rparr>) \<and>
   index_in_range (prev \<lparr>cards = [False, False, True], indicators = [False, False, True], currentIndex = 2\<rparr>) \<and>
   index_in_range (goTo 1 \<lparr>cards = [False, False, True], indicators = [False, False, True], currentIndex = 2\<rparr>) \<and>
   index_in_range (indicator_click 0 \<lparr>cards = [False, False, True], indicators = [False, False, True], currentIndex = 2\<rparr>)"
proof -
  let ?t = "\<lparr>cards = [False, False, True], indicators = [False, False, True], currentIndex = 2\<rparr>"
  have r: "index_in_range ?t" by (simp add: index_in_range_def)
  from carousel_ops_index_in_range [OF r, of 1 0] r show ?thesis by simp
qed


subsection \<open>Facts about field validation\<close>

lemma split_js_not_Nil [simp]: "split_js sep s \<noteq> []"
  by (induction s) (auto split: list.splits)

lemma validator_of_Some: "\<exists>name. validator_of rule = Some name"
proof -
  obtain a rest where "split_js CHR '':'' rule = a # rest"
    by (cases "split_js CHR '':'' rule") simp_all
  then show ?thesis
    by (cases rest) (simp_all add: validator_of_def destructure2_def)
qed

lemma validate_rules_step:
  "validate_rules v (rule # rules) =
     (if rule_fails v rule then (False, rule_message rule) else validate_rules v rules)"
  by (cases "destructure2 (split_js CHR '':'' rule)")
     (simp add: rule_fails_def rule_message_def validator_of_def param_of_def)

lemma validate_rules_find:
  "validate_rules v rules =
     (case find (rule_fails v) rules of
        None \<Rightarrow> (True, '''')
      | Some rule \<Rightarrow> (False, rule_message rule))"
proof (induction rules)
  case Nil
  show ?case by simp
next
  case (Cons rule rules)
  show ?case
    unfolding validate_rules_step using Cons.IH by simp
qed

lemma rules_required_minLength3:
  "split_js CHR ''|'' ''required|minLength:3'' = [''required'', ''minLength:3'']"
  by simp

lemma validator_of_required: "validator_of ''required'' = Some ''required''"
  by (simp add: validator_of_def destructure2_def)

lemma validator_of_minLength3:
  "validator_of ''minLength:3'' = Some ''minLength''" "param_of ''minLength:3'' = Some ''3''"
  by (simp_all add: validator_of_def param_of_def destructure2_def)

lemma parseInt_3: "parseInt (Some ''3'') = Some 3"
  by (simp add: parseInt_def parseInt_string_def is_space_def digit_value_def digits_number_def)

lemma rule_fails_required: "rule_fails v ''required'' = (\<not> validators_required v)"
  unfolding rule_fails_def validator_of_required by simp

lemma rule_fails_minLength3:
  "rule_fails v ''minLength:3'' = (v \<noteq> '''' \<and> \<not> 3 \<le> length v)"
  unfolding rule_fails_def validator_of_minLength3 parseInt_3
  by (simp add: validators_minLength_def)

lemma validate_rules_required_minLength3:
  "fst (validate_rules v [''required'', ''minLength:3'']) =
     (validators_required v \<and> (v = '''' \<or> 3 \<le> length v))"
  unfolding validate_rules_step rule_fails_required rule_fails_minLength3
  by (simp del: validate_rules.simps(2))

lemma fst_validateField:
  "fst (validateField f) = fst (validate_rules (field_value f) (field_rules f))"
  by (cases "validate_rules (field_value f) (field_rules f)") (simp add: validateField_def)

text \<open>
  Claim C6. The loop over the rules stops at the first rule that fails, and that rule
  gives the message; without a failing rule the field is valid. A field with
  \<open>data-validate="required|minLength:3"\<close> is invalid for the values \<open>""\<close> and \<open>"ab"\<close> and
  valid for \<open>"abc"\<close>.
\<close>

theorem validateField_required_minLength3:
  "validate_rules v rules =
     (case find (rule_fails v) rules of
        None \<Rightarrow> (True, '''')
      | Some rule \<Rightarrow> (False, rule_message rule)) \<and>
   fst (validateField (f\<lparr>field_value := '''',
                          dataset_validate := Some ''required|minLength:3''\<rparr>)) = False \<and>
   fst (validateField (f\<lparr>field_value := ''ab'',
                          dataset_validate := Some ''required|minLength:3''\<rparr>)) = False \<and>
   fst (validateField (f\<lparr>field_value := ''abc'',
                          dataset_validate := Some ''required|minLength:3''\<rparr>)) = True"
proof -
  have e: "fst (validateField (f\<lparr>field_value := w,
                 dataset_validate := Some ''required|minLength:3''\<rparr>)) =
           fst (validate_rules w [''required'', ''minLength:3''])" for w
    unfolding fst_validateField field_rules_def
    by (simp del: split_js.simps validate_rules.simps add: rules_required_minLength3)
  have a: "fst (validate_rules '''' [''required'', ''minLength:3'']) = False"
    unfolding validate_rules_required_minLength3
    by (simp add: validators_required_def trim_def)
  have b: "fst (validate_rules ''ab'' [''required'', ''minLength:3'']) = False"
    unfolding validate_rules_required_minLength3
    by (simp add: validators_required_def trim_def is_space_def)
  have c: "fst (validate_rules ''abc'' [''required'', ''minLength:3'']) = True"
    unfolding validate_rules_required_minLength3
    by (simp add: validators_required_def trim_def is_space_def)
  from validate_rules_find [of v rules] a b c show ?thesis
    unfolding e by simp
qed

lemma validate_rules_empty_value:
  "\<not> list_ex (\<lambda>rule. validator_of rule = Some ''required'') rules
     \<Longrightarrow> validate_rules '''' rules = (True, '''')"
proof (induction rules)
  case Nil
  show ?case by simp
next
  case (Cons rule rules)
  then have "\<not> rule_fails '''' rule"
    by (simp add: rule_fails_def)
  with Cons show ?case
    unfolding validate_rules_step by simp
qed

text \<open>
  Claim C9. A field that has no rule whose validator is \<open>required\<close> is valid on the empty
  value, whatever its other rules are: the checks \<open>email\<close>, \<open>phone\<close> and \<open>minLength\<close>
  are guarded by \<open>value &&\<close>, and a rule of any other name checks nothing.
\<close>

theorem validateField_empty_without_required:
  assumes "field_value f = ''''"
    and "\<not> list_ex (\<lambda>rule. validator_of rule = Some ''required'') (field_rules f)"
  shows "fst (validateField f) = True"
  using assms validate_rules_empty_value [of "field_rules f"]
  by (simp add: fst_validateField)

theorem validateField_empty_without_required_witness:
  "fst (validateField
     \<lparr>field_value = '''', default_value = '''',
      dataset_validate = Some ''email|phone|minLength:3'',
      class_valid = False, class_invalid = False, form_error = Some ''''\<rparr>) = True"
  using validateField_empty_without_required
    [of "\<lparr>field_value = '''', default_value = '''',
          dataset_validate = Some ''email|phone|minLength:3'',
          class_valid = False, class_invalid = False, form_error = Some ''''\<rparr>"]
  by (simp add: field_rules_def validator_of_def destructure2_def)

subsection \<open>Facts about submission\<close>

lemma showMessage_flags [simp]:
  "isSubmitting (showMessage m ty cf) = isSubmitting cf"
  "in_flight (showMessage m ty cf) = in_flight cf"
  by (simp_all add: showMessage_def split: option.splits)

lemma message_timeout_flags [simp]:
  "isSubmitting (message_timeout cf) = isSubmitting cf"
  "in_flight (message_timeout cf) = in_flight cf"
  by (simp_all add: message_timeout_def split: option.splits list.splits)

lemma in_flight_ok_handleSubmit:
  "in_flight_ok cf \<Longrightarrow> in_flight_ok (handleSubmit cf)"
  by (auto simp: in_flight_ok_def handleSubmit_def split: prod.splits option.splits if_splits)

lemma in_flight_ok_resume:
  "in_flight_ok cf \<Longrightarrow> in_flight_ok (handleSubmit_resume fulfilled cf)"
  by (auto simp: in_flight_ok_def handleSubmit_resume_def Let_def split: if_splits)

lemma in_flight_ok_step:
  "in_flight_ok cf \<Longrightarrow> in_flight_ok (form_step cf ev)"
proof (cases ev)
  case Submit
  assume "in_flight_ok cf"
  with Submit show ?thesis by (simp add: form_step_def in_flight_ok_handleSubmit)
next
  case (ApiSettled fulfilled)
  assume "in_flight_ok cf"
  with ApiSettled show ?thesis by (simp add: form_step_def in_flight_ok_resume)
next
  case (Blur i)
  assume "in_flight_ok cf"
  with Blur show ?thesis by (auto simp: form_step_def in_flight_ok_def split: if_splits)
next
  case (Input i v)
  assume "in_flight_ok cf"
  with Input show ?thesis by (auto simp: form_step_def in_flight_ok_def split: if_splits)
next
  case MessageTimeout
  assume "in_flight_ok cf"
  with MessageTimeout show ?thesis by (auto simp: form_step_def in_flight_ok_def split: if_splits)
qed

lemma in_flight_ok_run:
  "in_flight_ok cf \<Longrightarrow> in_flight_ok (form_run cf evs)"
  unfolding form_run_def
  by (induction evs arbitrary: cf) (simp_all add: in_flight_ok_step)

text \<open>
  Claim C7. While \<open>isSubmitting\<close> is set, \<open>handleSubmit\<close> returns the state it was given:
  no input is validated, no message is shown, nothing is sent. And from a form that has
  no submission under way, whatever events follow, at most one submission is under way.
\<close>

theorem handleSubmit_while_submitting:
  assumes "isSubmitting cf" and "in_flight cf0 = 0"
  shows "handleSubmit cf = cf \<and> in_flight (form_run cf0 evs) \<le> 1"
proof -
  from assms(1) have noop: "handleSubmit cf = cf"
    by (simp add: handleSubmit_def)
  from assms(2) have "in_flight_ok cf0"
    by (simp add: in_flight_ok_def)
  then have "in_flight_ok (form_run cf0 evs)"
    by (rule in_flight_ok_run)
  then have "in_flight (form_run cf0 evs) \<le> 1"
    by (simp add: in_flight_ok_def split: if_splits)
  with noop show ?thesis by simp
qed

theorem handleSubmit_while_submitting_witness:
  "handleSubmit
     \<lparr>inputs = [\<lparr>field_value = '''', default_value = '''',
                  dataset_validate = Some ''required'',
                  class_valid = False, class_invalid = False, form_error = Some ''''\<rparr>],
      isSubmitting = True, submitBtn = Some \<lparr>disabled = True, loading = True\<rparr>,
      form_message = None, next_element = 0, hide_timers = [], in_flight = 1\<rparr>
   = \<lparr>inputs = [\<lparr>field_value = '''', default_value = '''',
                  dataset_validate = Some ''required'',
                  class_valid = False, class_invalid = False, form_error = Some ''''\<rparr>],
      isSubmitting = True, submitBtn = Some \<lparr>disabled = True, loading = True\<rparr>,
      form_message = None, next_element = 0, hide_timers = [], in_flight = 1\<rparr> \<and>
   in_flight
     (form_run
        \<lparr>inputs = [], isSubmitting = False,
         submitBtn = Some \<lparr>disabled = False, loading = False\<rparr>,
         form_message = None, next_element = 0, hide_timers = [], in_flight = 0\<rparr>
        [Submit, Submit, ApiSettled True, Submit]) \<le> 1"
  using handleSubmit_while_submitting
    [of "\<lparr>inputs = [\<lparr>field_value = '''', default_value = '''',
                  dataset_validate = Some ''required'',
                  class_valid = False, class_invalid = False, form_error = Some ''''\<rparr>],
      isSubmitting = True, submitBtn = Some \<lparr>disabled = True, loading = True\<rparr>,
      form_message = None, next_element = 0, hide_timers = [], in_flight = 1\<rparr>"
     "\<lparr>inputs = [], isSubmitting = False,
         submitBtn = Some \<lparr>disabled = False, loading = False\<rparr>,
         form_message = None, next_element = 0, hide_timers = [], in_flight = 0\<rparr>"
     "[Submit, Submit, ApiSettled True, Submit]"]
  by simp


subsection \<open>Facts about the WhatsApp message\<close>

lemma trim_empty_iff: "trim v = '''' \<longleftrightarrow> list_all is_space v"
proof -
  have "trim v = '''' \<longleftrightarrow> (\<forall>c \<in> set (dropWhile is_space v). is_space c)"
    by (simp add: trim_def dropWhile_eq_Nil_conv)
  also have "\<dots> \<longleftrightarrow> dropWhile is_space v = []"
  proof
    assume all: "\<forall>c \<in> set (dropWhile is_space v). is_space c"
    show "dropWhile is_space v = []"
    proof (rule ccontr)
      assume ne: "dropWhile is_space v \<noteq> []"
      then have "\<not> is_space (hd (dropWhile is_space v))" by (rule hd_dropWhile)
      moreover from ne have "hd (dropWhile is_space v) \<in> set (dropWhile is_space v)" by simp
      ultimately show False using all by blast
    qed
  next
    assume e: "dropWhile is_space v = []"
    show "\<forall>c \<in> set (dropWhile is_space v). is_space c" unfolding e by simp
  qed
  also have "\<dots> \<longleftrightarrow> list_all is_space v"
    by (simp add: dropWhile_eq_Nil_conv list_all_iff)
  finally show ?thesis .
qed

lemma foldl_message_lines:
  "foldl (\<lambda>message (key, v).
            if trim v \<noteq> '''' then message @ message_line it key v else message)
     acc entries =
   acc @ concat (map (\<lambda>(key, v). message_line it key v)
                  (filter (\<lambda>(key, v). \<not> list_all is_space v) entries))"
  by (induction entries arbitrary: acc) (auto simp: trim_empty_iff split: prod.splits)

lemma hex_digits_unreserved: "list_all unreserved ''0123456789ABCDEF''"
  by (simp add: unreserved_def)

lemma unreserved_hex_digit: "unreserved (hex_digit n)"
proof -
  have "n mod 16 < length ''0123456789ABCDEF''" by simp
  with hex_digits_unreserved show ?thesis
    unfolding hex_digit_def list_all_length by blast
qed

lemma url_safe_percent: "list_all url_safe (percent b)"
  by (simp add: percent_def url_safe_def unreserved_hex_digit)

lemma url_safe_encode_unit: "list_all url_safe (encode_unit c)"
  by (simp add: encode_unit_def Let_def url_safe_percent) (simp add: url_safe_def)

lemma url_safe_encodeURIComponent: "list_all url_safe (encodeURIComponent s)"
  by (induction s) (simp_all add: encodeURIComponent_def url_safe_encode_unit)

lemma label_name: "getFieldLabel it ''name'' = ''Nome''"
  by (simp add: getFieldLabel_def labels_def)

lemma label_phone: "getFieldLabel it ''phone'' = ''Telefone''"
  by (simp add: getFieldLabel_def labels_def)

lemma build_message_ana:
  "build_message it [(''name'', ''Ana''), (''phone'', ''11999999999'')] =
     message_header @ ''*Nome:* Ana'' @ newline @ ''*Telefone:* 11999999999'' @ newline
       @ message_footer"
  by (simp add: build_message_def message_line_def label_name label_phone trim_def is_space_def)

lemma build_message_ana_blank:
  "build_message it
     [(''name'', ''Ana''), (''email'', ''''), (''company'', [CHR 0x20, CHR 0x09, CHR 0x0A, CHR 0xA0]),
      (''phone'', ''11999999999''), (''message'', ''  '')] =
   build_message it [(''name'', ''Ana''), (''phone'', ''11999999999'')]"
  by (simp add: build_message_def message_line_def label_name label_phone trim_def is_space_def)

lemma build_message_keeps_value:
  "build_message it [(''name'', '' Ana Lima  '')] =
     message_header @ ''*Nome:*  Ana Lima  '' @ newline @ message_footer"
  by (simp add: build_message_def message_line_def label_name trim_def is_space_def)

text \<open>
  Claim C8. For the entries \<open>name = Ana\<close>, \<open>phone = 11999999999\<close> the message has the lines
  \<open>*Nome:* Ana\<close> and \<open>*Telefone:* 11999999999\<close>, and it is the same message when fields
  that are empty or hold only white space (spaces, a tab, a line feed, a no-break space)
  stand between them; a value with white space around other characters is kept as
  typed. For any entries the message is the greeting, one line for each entry whose
  value has a character that is not white space and none for the others, and the
  closing. The URL opened is \<open>https://wa.me/5511914823015?text=\<close> followed by the
  encoded message, which consists of unreserved characters and \<open>%\<close> escapes only.
\<close>

theorem whatsapp_message_and_link:
  "''*Nome:* Ana'' \<in>
      set (lines_of (build_message it [(''name'', ''Ana''), (''phone'', ''11999999999'')])) \<and>
   ''*Telefone:* 11999999999'' \<in>
      set (lines_of (build_message it [(''name'', ''Ana''), (''phone'', ''11999999999'')])) \<and>
   build_message it
     [(''name'', ''Ana''), (''email'', ''''), (''company'', [CHR 0x20, CHR 0x09, CHR 0x0A, CHR 0xA0]),
      (''phone'', ''11999999999''), (''message'', ''  '')] =
     build_message it [(''name'', ''Ana''), (''phone'', ''11999999999'')] \<and>
   lines_of (build_message it [(''name'', '' Ana Lima  '')]) =
     [''Ol'' @ [CHR 0xE1] @ ''! Gostaria de solicitar um or'' @ [CHR 0xE7] @ ''amento:'',
      '''', ''*Nome:*  Ana Lima  '', '''', ''Aguardo retorno. Obrigado!''] \<and>
   build_message it entries =
      message_header
        @ concat (map (\<lambda>(key, v). message_line it key v)
                    (filter (\<lambda>(key, v). \<not> list_all is_space v) entries))
        @ message_footer \<and>
   whatsapp_handleSubmit it entries =
      ''https://wa.me/5511914823015?text='' @ encodeURIComponent (build_message it entries) \<and>
   list_all url_safe (encodeURIComponent (build_message it entries)) \<and>
   whatsapp_handleSubmit it [(''name'', ''Ana''), (''phone'', ''11999999999'')] =
      ''https://wa.me/5511914823015?text=Ol%C3%A1!%20Gostaria%20de%20solicitar%20um%20or%C3%A7amento%3A%0A%0A*Nome%3A*%20Ana%0A*Telefone%3A*%2011999999999%0A%0AAguardo%20retorno.%20Obrigado!''"
proof -
  have lines: "lines_of (build_message it [(''name'', ''Ana''), (''phone'', ''11999999999'')]) =
      [''Ol'' @ [CHR 0xE1] @ ''! Gostaria de solicitar um or'' @ [CHR 0xE7] @ ''amento:'',
       '''', ''*Nome:* Ana'', ''*Telefone:* 11999999999'', '''', ''Aguardo retorno. Obrigado!'']"
    unfolding build_message_ana
    by (simp add: lines_of_def message_header_def message_footer_def newline_def)
  have kept: "lines_of (build_message it [(''name'', '' Ana Lima  '')]) =
      [''Ol'' @ [CHR 0xE1] @ ''! Gostaria de solicitar um or'' @ [CHR 0xE7] @ ''amento:'',
       '''', ''*Nome:*  Ana Lima  '', '''', ''Aguardo retorno. Obrigado!'']"
    unfolding build_message_keeps_value
    by (simp add: lines_of_def message_header_def message_footer_def newline_def)
  have gen: "build_message it entries =
      message_header
        @ concat (map (\<lambda>(key, v). message_line it key v)
                    (filter (\<lambda>(key, v). \<not> list_all is_space v) entries))
        @ message_footer"
    by (simp add: build_message_def foldl_message_lines)
  have url: "whatsapp_handleSubmit it entries =
      ''https://wa.me/5511914823015?text='' @ encodeURIComponent (build_message it entries)"
    by (simp add: whatsapp_handleSubmit_def openWhatsApp_def phoneNumber_def)
  have ana: "whatsapp_handleSubmit it [(''name'', ''Ana''), (''phone'', ''11999999999'')] =
      ''https://wa.me/5511914823015?text=Ol%C3%A1!%20Gostaria%20de%20solicitar%20um%20or%C3%A7amento%3A%0A%0A*Nome%3A*%20Ana%0A*Telefone%3A*%2011999999999%0A%0AAguardo%20retorno.%20Obrigado!''"
    unfolding whatsapp_handleSubmit_def build_message_ana
    by (simp add: openWhatsApp_def phoneNumber_def message_header_def message_footer_def
        newline_def encodeURIComponent_def encode_unit_def unreserved_def percent_def
        hex_digit_def Let_def)
  show ?thesis
    unfolding lines kept build_message_ana_blank
    using gen url ana url_safe_encodeURIComponent [of "build_message it entries"]
    by simp
qed


end
